theory Spec2Isabelle
  imports Main
begin

section \<open>PatternMatcher: \<open>matches_any\<close> (src/app/main.py, lines 72-80)\<close>

text \<open>
  \<^verbatim>\<open>
  def matches_any(name: str, patterns: List[str]) -> bool:
      name = name or ""
      for pat in patterns:
          pat = (pat or "").strip()
          if not pat:
              continue
          if fnmatch.fnmatch(name, pat):
              return True
      return False
  \<close>
  The function calls Python's \<open>fnmatch.fnmatch\<close>, which first passes both arguments
  through \<open>os.path.normcase\<close> and then matches with \<open>fnmatch.fnmatchcase\<close>. On POSIX
  \<open>normcase\<close> is the identity; on Windows it replaces \<open>/\<close> by a backslash and lower-cases.
  The program runs on both (\<open>open_path\<close> has a \<open>sys.platform.startswith("win")\<close> branch),
  so the platform is a parameter of the model.
\<close>

datatype platform = Posix | Windows

subsection \<open>\<open>str.strip\<close>, \<open>str.lower\<close>, \<open>os.path.normcase\<close>\<close>

text \<open>Characters are 8-bit; the whitespace of \<open>str.isspace\<close> in that range.\<close>

definition isspace :: "char \<Rightarrow> bool" where
  "isspace c =
     (let n = (of_char c :: nat)
      in (9 \<le> n \<and> n \<le> 13) \<or> (28 \<le> n \<and> n \<le> 32) \<or> n = 133 \<or> n = 160)"

definition strip :: "string \<Rightarrow> string" where
  "strip s = rev (dropWhile isspace (rev (dropWhile isspace s)))"

definition lower_char :: "char \<Rightarrow> char" where
  "lower_char c =
     (let n = (of_char c :: nat)
      in if (65 \<le> n \<and> n \<le> 90) \<or> (192 \<le> n \<and> n \<le> 222 \<and> n \<noteq> 215)
         then char_of (n + 32) else c)"

definition normcase :: "platform \<Rightarrow> string \<Rightarrow> string" where
  "normcase os s =
     (case os of
        Posix \<Rightarrow> s
      | Windows \<Rightarrow> map (\<lambda>c. lower_char (if c = CHR ''/'' then CHR 0x5C else c)) s)"

subsection \<open>\<open>fnmatch.translate\<close>: the pattern as a list of tokens\<close>

text \<open>
  \<open>fnmatch.translate\<close> turns a pattern into a regular expression: \<open>*\<close> into \<open>.*\<close>,
  \<open>?\<close> into \<open>.\<close>, \<open>[seq]\<close> / \<open>[!seq]\<close> into a character set, every other character into
  itself; a \<open>[\<close> with no closing \<open>]\<close> is a literal. The tokens below are the pieces of
  that expression; a set is kept as its list of ranges (a single member \<open>c\<close> is the
  range \<open>c-c\<close>), and a range whose ends are out of order has no member.
\<close>

datatype gtok = GStar | GAny | GLit char | GSet bool "(char \<times> char) list"

fun set_items :: "string \<Rightarrow> (char \<times> char) list" where
  "set_items (a # b # c # rest) =
     (if b = CHR ''-'' then (a, c) # set_items rest else (a, a) # set_items (b # c # rest))"
| "set_items (a # rest) = (a, a) # set_items rest"
| "set_items [] = []"

text \<open>
  The scan for the closing bracket: an optional \<open>!\<close>, then an optional \<open>]\<close> (a member
  of the set when it comes first), then up to the next \<open>]\<close>. The result is the text
  between the brackets and the pattern after the closing one.
\<close>

definition split_set :: "string \<Rightarrow> (string \<times> string) option" where
  "split_set r =
     (let (neg, r1) = (case r of c # t \<Rightarrow> if c = CHR ''!'' then ([c], t) else ([], r) | [] \<Rightarrow> ([], r));
          (lead, r2) = (case r1 of c # t \<Rightarrow> if c = CHR '']'' then ([c], t) else ([], r1) | [] \<Rightarrow> ([], r1));
          body = takeWhile (\<lambda>c. c \<noteq> CHR '']'') r2;
          rest = dropWhile (\<lambda>c. c \<noteq> CHR '']'') r2
      in case rest of [] \<Rightarrow> None | _ # after \<Rightarrow> Some (neg @ lead @ body, after))"

definition mk_set :: "string \<Rightarrow> gtok" where
  "mk_set stuff =
     (case stuff of
        c # t \<Rightarrow> if c = CHR ''!'' then GSet True (set_items t) else GSet False (set_items stuff)
      | [] \<Rightarrow> GSet False [])"

lemma split_set_shorter: "split_set r = Some (stuff, after) \<Longrightarrow> length after < length r"
proof -
  have d: "length (dropWhile P xs) \<le> length xs" for P and xs :: string
    by (induction xs) auto
  assume "split_set r = Some (stuff, after)"
  then show ?thesis
    using d [of "\<lambda>c. c \<noteq> CHR '']''" r]
          d [of "\<lambda>c. c \<noteq> CHR '']''" "tl r"]
          d [of "\<lambda>c. c \<noteq> CHR '']''" "tl (tl r)"]
    by (auto simp: split_set_def Let_def split: list.splits if_splits)
qed

function translate :: "string \<Rightarrow> gtok list" where
  "translate [] = []"
| "translate (c # r) =
     (if c = CHR ''*'' then
        (case translate r of GStar # ts \<Rightarrow> GStar # ts | ts \<Rightarrow> GStar # ts)
      else if c = CHR ''?'' then GAny # translate r
      else if c = CHR ''['' then
        (case split_set r of
           None \<Rightarrow> GLit c # translate r
         | Some (stuff, after) \<Rightarrow> mk_set stuff # translate after)
      else GLit c # translate r)"
  by pat_completeness auto
termination
  by (relation "measure length") (auto dest: split_set_shorter)

subsection \<open>Matching: the whole name against the whole pattern\<close>

fun tok_match :: "gtok \<Rightarrow> char \<Rightarrow> bool" where
  "tok_match GStar c = True"
| "tok_match GAny c = True"
| "tok_match (GLit d) c = (c = d)"
| "tok_match (GSet neg rs) c =
     (list_ex (\<lambda>(lo, hi). of_char lo \<le> (of_char c :: nat) \<and> (of_char c :: nat) \<le> of_char hi) rs \<noteq> neg)"

fun gmatch :: "gtok list \<Rightarrow> string \<Rightarrow> bool" where
  "gmatch [] s = (s = [])"
| "gmatch (GStar # ts) s =
     (gmatch ts s \<or> (case s of [] \<Rightarrow> False | _ # s' \<Rightarrow> gmatch (GStar # ts) s'))"
| "gmatch (t # ts) s = (case s of [] \<Rightarrow> False | c # s' \<Rightarrow> tok_match t c \<and> gmatch ts s')"

definition fnmatchcase :: "string \<Rightarrow> string \<Rightarrow> bool" where
  "fnmatchcase name pat = gmatch (translate pat) name"

definition fnmatch :: "platform \<Rightarrow> string \<Rightarrow> string \<Rightarrow> bool" where
  "fnmatch os name pat = fnmatchcase (normcase os name) (normcase os pat)"

fun matches_any :: "platform \<Rightarrow> string \<Rightarrow> string list \<Rightarrow> bool" where
  "matches_any os name [] = False"
| "matches_any os name (pat # patterns) =
     (let pat' = strip pat
      in if pat' = [] then matches_any os name patterns
         else if fnmatch os name pat' then True
         else matches_any os name patterns)"

subsection \<open>Shell-glob semantics, stated declaratively\<close>

text \<open>
  \<open>glob_sem ts s\<close>: the tokens \<open>ts\<close> match the whole of \<open>s\<close>. A star stands for any
  string (also the empty one), every other token for exactly one character. The
  backtracking matcher \<open>gmatch\<close> decides this relation.
\<close>

lemma gmatch_star_Nil: "gmatch (GStar # ts) [] = gmatch ts []"
  by simp

lemma gmatch_star_Cons: "gmatch (GStar # ts) (c # s) = (gmatch ts (c # s) \<or> gmatch (GStar # ts) s)"
  by simp

declare gmatch.simps(2) [simp del]
declare gmatch_star_Nil [simp] gmatch_star_Cons [simp]

inductive glob_sem :: "gtok list \<Rightarrow> string \<Rightarrow> bool" where
  glob_nil: "glob_sem [] []"
| glob_star: "glob_sem ts s \<Longrightarrow> glob_sem (GStar # ts) (u @ s)"
| glob_one: "t \<noteq> GStar \<Longrightarrow> tok_match t c \<Longrightarrow> glob_sem ts s \<Longrightarrow> glob_sem (t # ts) (c # s)"

lemma glob_star_cons: "glob_sem (GStar # ts) s \<Longrightarrow> glob_sem (GStar # ts) (c # s)"
proof -
  assume "glob_sem (GStar # ts) s"
  then obtain u s' where "s = u @ s'" "glob_sem ts s'"
    by (cases rule: glob_sem.cases) auto
  then show ?thesis using glob_star [of ts s' "c # u"] by simp
qed

lemma gmatch_sound: "gmatch ts s \<Longrightarrow> glob_sem ts s"
proof (induction ts s rule: gmatch.induct)
  case (2 ts s)
  show ?case
  proof (cases s)
    case Nil
    with 2 show ?thesis using glob_star [of ts "[]" "[]"] by simp
  next
    case (Cons c s')
    with 2 show ?thesis using glob_star [of ts s "[]"] by (auto intro: glob_star_cons)
  qed
qed (auto split: list.splits intro: glob_nil glob_one)

lemma gmatch_star_skip: "gmatch ts s \<Longrightarrow> gmatch (GStar # ts) s"
  by (cases s) auto

lemma gmatch_star_append: "gmatch ts s \<Longrightarrow> gmatch (GStar # ts) (u @ s)"
  by (induction u) (auto intro: gmatch_star_skip)

lemma gmatch_complete: "glob_sem ts s \<Longrightarrow> gmatch ts s"
proof (induction rule: glob_sem.induct)
  case glob_nil
  then show ?case by simp
next
  case (glob_star ts s u)
  from glob_star.IH show ?case by (rule gmatch_star_append)
next
  case (glob_one t c ts s)
  then show ?case by (cases t) auto
qed

lemma gmatch_iff_glob_sem: "gmatch ts s \<longleftrightarrow> glob_sem ts s"
  using gmatch_sound gmatch_complete by blast

lemma translate_literal:
  "\<forall>c\<in>set p. c \<noteq> CHR ''*'' \<and> c \<noteq> CHR ''?'' \<and> c \<noteq> CHR ''['' \<Longrightarrow> translate p = map GLit p"
  by (induction p) auto

lemma gmatch_literal: "gmatch (map GLit p) s \<longleftrightarrow> s = p"
  by (induction p arbitrary: s) (auto split: list.splits)

lemma fnmatchcase_literal:
  "\<forall>c\<in>set p. c \<noteq> CHR ''*'' \<and> c \<noteq> CHR ''?'' \<and> c \<noteq> CHR ''['' \<Longrightarrow> fnmatchcase s p \<longleftrightarrow> s = p"
  by (simp add: fnmatchcase_def translate_literal gmatch_literal)

lemma matches_any_fnmatch:
  "matches_any os name pats \<longleftrightarrow> (\<exists>p\<in>set pats. strip p \<noteq> [] \<and> fnmatch os name (strip p))"
  by (induction pats) (auto simp: Let_def)

text \<open>
  C9, as the claim states it, is false on Windows: there \<open>fnmatch.fnmatch\<close> lower-cases
  the name and the pattern, so the pattern \<open>keep_me.txt\<close> matches the name
  \<open>KEEP_ME.TXT\<close>, which a case-sensitive match of the whole name rejects.
\<close>

theorem matches_any_case_counterexample:
  "matches_any Windows ''KEEP_ME.TXT'' [''keep_me.txt''] \<and>
   \<not> (strip ''keep_me.txt'' \<noteq> [] \<and> fnmatchcase ''KEEP_ME.TXT'' (strip ''keep_me.txt''))"
  by code_simp

text \<open>
  C9 (amended): \<open>matches_any\<close> returns true iff some pattern that is non-empty after
  trimming whitespace matches, trimmed, the entire name under shell-glob semantics
  (\<open>*\<close>, \<open>?\<close>, \<open>[...]\<close>), after name and pattern have gone through the platform's
  \<open>os.path.normcase\<close>: on POSIX that is the identity and the match is case-sensitive; on
  Windows both are lower-cased (and \<open>/\<close> becomes a backslash), so the match ignores case.
  The match is anchored to the whole name, empty and whitespace-only patterns are
  ignored, and the function is pure.
\<close>

theorem matches_any_iff:
  "(matches_any os name pats \<longleftrightarrow>
      (\<exists>p\<in>set pats. strip p \<noteq> [] \<and>
         glob_sem (translate (normcase os (strip p))) (normcase os name))) \<and>
   (matches_any Posix name pats \<longleftrightarrow>
      (\<exists>p\<in>set pats. strip p \<noteq> [] \<and> glob_sem (translate (strip p)) name))"
proof -
  have sem: "fnmatch os' n p \<longleftrightarrow> glob_sem (translate (normcase os' p)) (normcase os' n)"
    for os' n p
    by (simp add: fnmatch_def fnmatchcase_def gmatch_iff_glob_sem)
  have posix: "normcase Posix x = x" for x
    by (simp add: normcase_def)
  have general: "matches_any os' name pats \<longleftrightarrow>
      (\<exists>p\<in>set pats. strip p \<noteq> [] \<and>
         glob_sem (translate (normcase os' (strip p))) (normcase os' name))" for os'
    unfolding matches_any_fnmatch sem ..
  show ?thesis
    using general [of os] general [of Posix] by (simp add: posix)
qed

theorem matches_any_iff_witness:
  "matches_any Posix ''a.json'' [''  '', '' *.json''] \<and>
   (\<exists>p\<in>set [''  '', '' *.json'']. strip p \<noteq> [] \<and> glob_sem (translate (strip p)) ''a.json'')"
proof -
  have m: "matches_any Posix ''a.json'' [''  '', '' *.json'']"
    by code_simp
  show ?thesis
    using m matches_any_iff [of Posix "''a.json''" "[''  '', '' *.json'']"] by blast
qed

section \<open>Scheduler: \<open>App._tick\<close> and \<open>App._run_due_jobs\<close> (src/app/main.py, lines 550-585)\<close>

text \<open>
  A line of the \<open>Logger\<close> is its level and its message. A Python exception is
  modelled by its message (\<open>str(e)\<close>).
\<close>

datatype level = INFO | WARN | ERROR

type_synonym log_line = "level \<times> string"

type_synonym exn = string

text \<open>The dataclass \<open>Job\<close> (src/app/main.py, lines 117-138).\<close>

record job =
  name :: string
  enabled :: bool
  mode :: string
  local_folders :: "string list"
  ftp_target :: string
  ftp_folders :: "string list"
  exclude_files :: "string list"
  exclude_folders :: "string list"
  schedule_enabled :: bool
  days :: "int list"
  hour :: int
  minute :: int
  last_run_key :: string
  dry_run :: bool

text \<open>
  A reading of \<open>datetime.datetime.now()\<close>, with the weekday that \<open>now.weekday()\<close>
  returns for it (Monday is 0). \<open>minute_stamp\<close> is \<open>now.strftime("%Y%m%d_%H%M")\<close>.
\<close>

record datetime =
  dt_year :: nat
  dt_month :: nat
  dt_day :: nat
  dt_hour :: nat
  dt_minute :: nat
  dt_second :: nat
  dt_weekday :: int

fun zpad :: "nat \<Rightarrow> nat \<Rightarrow> string" where
  "zpad 0 n = (if n = 0 then [] else zpad 0 (n div 10) @ [char_of (48 + n mod 10)])"
| "zpad (Suc w) n = zpad w (n div 10) @ [char_of (48 + n mod 10)]"

definition minute_stamp :: "datetime \<Rightarrow> string" where
  "minute_stamp now =
     zpad 4 (dt_year now) @ zpad 2 (dt_month now) @ zpad 2 (dt_day now) @ ''_'' @
     zpad 2 (dt_hour now) @ zpad 2 (dt_minute now)"

text \<open>
  \<^verbatim>\<open>
  def _run_due_jobs(self):
      now = datetime.datetime.now()
      key = now.strftime("%Y%m%d_%H%M")
      dow = now.weekday()
      changed = False
      for j in self.jobs:
          if not j.enabled or not j.schedule_enabled:
              continue
          if dow not in j.days:
              continue
          if now.hour != int(j.hour) or now.minute != int(j.minute):
              continue
          if j.last_run_key == key:
              continue
          self.log.info(f"Due job: {j.name} at {key}")
          try:
              self.run_job(j)
          finally:
              j.last_run_key = key
              changed = True
      if changed:
          save_state(self.obj, self.ftp_targets, self.jobs)
  \<close>
  For the loop, all that matters of \<open>run_job\<close> is whether it returns or raises, so it
  is a parameter: any function from the job and the state of the world (filesystems,
  servers, log) to the exception raised, if any, and the new state. \<open>run_job\<close> does not
  assign to a job. When it raises, the \<open>finally\<close> block runs and the exception leaves
  the loop: the jobs after the raising one are not looked at, and \<open>save_state\<close> is not
  called. The result records the jobs after the loop, the positions of the jobs fired,
  the lines logged by the loop itself, \<open>changed\<close>, the exception that left the loop and
  the world.
\<close>

type_synonym 'w runner = "job \<Rightarrow> 'w \<Rightarrow> exn option \<times> 'w"

record 'w due_result =
  jobs_after :: "job list"
  fired :: "nat list"
  due_log :: "log_line list"
  changed :: bool
  raised :: "exn option"
  world_after :: 'w

definition skip_job :: "job \<Rightarrow> 'w due_result \<Rightarrow> 'w due_result" where
  "skip_job j r = r\<lparr>jobs_after := j # jobs_after r\<rparr>"

fun run_due_loop :: "'w runner \<Rightarrow> datetime \<Rightarrow> nat \<Rightarrow> job list \<Rightarrow> 'w \<Rightarrow> 'w due_result" where
  "run_due_loop run_job now i [] w =
     \<lparr>jobs_after = [], fired = [], due_log = [], changed = False, raised = None, world_after = w\<rparr>"
| "run_due_loop run_job now i (j # js) w =
     (let key = minute_stamp now; dow = dt_weekday now
      in if \<not> enabled j \<or> \<not> schedule_enabled j then
           skip_job j (run_due_loop run_job now (Suc i) js w)
         else if dow \<notin> set (days j) then
           skip_job j (run_due_loop run_job now (Suc i) js w)
         else if int (dt_hour now) \<noteq> hour j \<or> int (dt_minute now) \<noteq> minute j then
           skip_job j (run_due_loop run_job now (Suc i) js w)
         else if last_run_key j = key then
           skip_job j (run_due_loop run_job now (Suc i) js w)
         else
           (let line = (INFO, ''Due job: '' @ name j @ '' at '' @ key);
                j' = j\<lparr>last_run_key := key\<rparr>
            in case run_job j w of
                 (Some e, w') \<Rightarrow>
                   \<lparr>jobs_after = j' # js, fired = [i], due_log = [line], changed = True,
                    raised = Some e, world_after = w'\<rparr>
               | (None, w') \<Rightarrow>
                   (let r = run_due_loop run_job now (Suc i) js w'
                    in r\<lparr>jobs_after := j' # jobs_after r, fired := i # fired r,
                         due_log := line # due_log r, changed := True\<rparr>)))"

text \<open>
  \<^verbatim>\<open>
  def _tick(self):
      try:
          self.refresh_dashboard()
          if self._running:
              self._run_due_jobs()
      except Exception as e:
          self.log.error("Scheduler tick error: " + str(e))
      finally:
          self.after(max(5, int(self.tick_seconds)) * 1000, self._tick)
  \<close>
  The state of the application, as far as the scheduler reads and writes it: the jobs,
  \<open>_running\<close>, the jobs last written by \<open>save_state\<close>, the log and the world.
  \<open>ticks\<close> runs \<open>_tick\<close> once for each clock reading of a list and collects the
  positions fired.
\<close>

record 'w app =
  jobs :: "job list"
  running :: bool
  saved_jobs :: "job list"
  app_log :: "log_line list"
  world :: 'w

definition run_due_jobs :: "'w runner \<Rightarrow> datetime \<Rightarrow> 'w app \<Rightarrow> exn option \<times> nat list \<times> 'w app" where
  "run_due_jobs run_job now a =
     (let r = run_due_loop run_job now 0 (jobs a) (world a);
          a' = a\<lparr>jobs := jobs_after r, app_log := app_log a @ due_log r, world := world_after r\<rparr>
      in case raised r of
           Some e \<Rightarrow> (Some e, fired r, a')
         | None \<Rightarrow> (None, fired r, if changed r then a'\<lparr>saved_jobs := jobs_after r\<rparr> else a'))"

definition tick :: "'w runner \<Rightarrow> datetime \<Rightarrow> 'w app \<Rightarrow> nat list \<times> 'w app" where
  "tick run_job now a =
     (if running a then
        (case run_due_jobs run_job now a of
           (Some e, fs, a') \<Rightarrow>
             (fs, a'\<lparr>app_log := app_log a' @ [(ERROR, ''Scheduler tick error: '' @ e)]\<rparr>)
         | (None, fs, a') \<Rightarrow> (fs, a'))
      else ([], a))"

fun ticks :: "'w runner \<Rightarrow> datetime list \<Rightarrow> 'w app \<Rightarrow> nat list \<times> 'w app" where
  "ticks run_job [] a = ([], a)"
| "ticks run_job (now # nows) a =
     (let (fs, a') = tick run_job now a; (fs', a'') = ticks run_job nows a' in (fs @ fs', a''))"

text \<open>The four guards of the loop, together.\<close>

definition is_due :: "datetime \<Rightarrow> job \<Rightarrow> bool" where
  "is_due now j \<longleftrightarrow>
     enabled j \<and> schedule_enabled j \<and> dt_weekday now \<in> set (days j) \<and>
     int (dt_hour now) = hour j \<and> int (dt_minute now) = minute j \<and>
     last_run_key j \<noteq> minute_stamp now"

lemma loop_skip: "\<not> is_due now j \<Longrightarrow>
  run_due_loop run_job now i (j # js) w = skip_job j (run_due_loop run_job now (Suc i) js w)"
  by (auto simp: is_due_def Let_def)

lemma loop_fire_raise: "is_due now j \<Longrightarrow> run_job j w = (Some e, w') \<Longrightarrow>
  run_due_loop run_job now i (j # js) w =
    \<lparr>jobs_after = j\<lparr>last_run_key := minute_stamp now\<rparr> # js, fired = [i],
     due_log = [(INFO, ''Due job: '' @ name j @ '' at '' @ minute_stamp now)], changed = True,
     raised = Some e, world_after = w'\<rparr>"
  by (auto simp: is_due_def Let_def)

lemma loop_fire_ok: "is_due now j \<Longrightarrow> run_job j w = (None, w') \<Longrightarrow>
  run_due_loop run_job now i (j # js) w =
    (let r = run_due_loop run_job now (Suc i) js w'
     in r\<lparr>jobs_after := j\<lparr>last_run_key := minute_stamp now\<rparr> # jobs_after r, fired := i # fired r,
          due_log := (INFO, ''Due job: '' @ name j @ '' at '' @ minute_stamp now) # due_log r, changed := True\<rparr>)"
  by (auto simp: is_due_def Let_def)

lemmas loop_cases = loop_skip loop_fire_raise loop_fire_ok

declare run_due_loop.simps(2) [simp del]

lemma length_jobs_after: "length (jobs_after (run_due_loop run_job now i js w)) = length js"
proof (induction js arbitrary: i w)
  case Nil then show ?case by simp
next
  case (Cons j js)
  show ?case
  proof (cases "is_due now j")
    case False
    then show ?thesis using Cons by (simp add: loop_skip skip_job_def)
  next
    case True
    then show ?thesis using Cons
      by (cases "run_job j w"; cases "fst (run_job j w)") (auto simp: loop_cases Let_def)
  qed
qed

fun due_idx :: "datetime \<Rightarrow> nat \<Rightarrow> job list \<Rightarrow> nat list" where
  "due_idx now i [] = []"
| "due_idx now i (j # js) = (if is_due now j then i # due_idx now (Suc i) js else due_idx now (Suc i) js)"

lemma set_due_idx:
  "set (due_idx now i js) = {n. i \<le> n \<and> n < i + length js \<and> is_due now (js ! (n - i))}"
proof (induction js arbitrary: i)
  case Nil then show ?case by simp
next
  case (Cons j js)
  have step: "(j # js) ! (n - i) = js ! (n - Suc i)" if "Suc i \<le> n" for n
  proof -
    from that obtain m where "n - i = Suc m" "n - Suc i = m"
      by (metis Suc_diff_le diff_Suc_Suc)
    then show ?thesis by simp
  qed
  have tail: "set (due_idx now (Suc i) js) =
      {n. Suc i \<le> n \<and> n < i + length (j # js) \<and> is_due now ((j # js) ! (n - i))}"
    using step by (auto simp: Cons.IH)
  show ?case
  proof (cases "is_due now j")
    case True
    have "{n. i \<le> n \<and> n < i + length (j # js) \<and> is_due now ((j # js) ! (n - i))} =
          insert i {n. Suc i \<le> n \<and> n < i + length (j # js) \<and> is_due now ((j # js) ! (n - i))}"
      using True by (auto simp: Suc_le_eq le_less)
    with True tail show ?thesis by simp
  next
    case False
    have "{n. i \<le> n \<and> n < i + length (j # js) \<and> is_due now ((j # js) ! (n - i))} =
          {n. Suc i \<le> n \<and> n < i + length (j # js) \<and> is_due now ((j # js) ! (n - i))}"
    proof -
      have "\<not> is_due now ((j # js) ! (i - i))" using False by simp
      then show ?thesis by (metis (no_types, lifting) Suc_le_eq le_neq_implies_less less_imp_le)
    qed
    with False tail show ?thesis by simp
  qed
qed

lemma due_idx_increasing: "sorted_wrt (<) (due_idx now i js)"
  by (induction js arbitrary: i) (auto simp: set_due_idx)

lemma fired_prefix:
  "\<exists>rest. due_idx now i js = fired (run_due_loop run_job now i js w) @ rest \<and>
          (raised (run_due_loop run_job now i js w) = None \<longrightarrow> rest = [])"
proof (induction js arbitrary: i w)
  case Nil then show ?case by simp
next
  case (Cons j js)
  show ?case
  proof (cases "is_due now j")
    case False
    then show ?thesis using Cons [of "Suc i" w] by (simp add: loop_skip skip_job_def)
  next
    case True
    obtain e w' where rj: "run_job j w = (e, w')" by (cases "run_job j w")
    show ?thesis
    proof (cases e)
      case None
      with True rj show ?thesis using Cons [of "Suc i" w'] by (simp add: loop_fire_ok Let_def)
    next
      case (Some x)
      with True rj show ?thesis by (simp add: loop_fire_raise)
    qed
  qed
qed

lemma jobs_after_nth:
  "k < length js \<Longrightarrow>
   jobs_after (run_due_loop run_job now i js w) ! k =
     (if i + k \<in> set (fired (run_due_loop run_job now i js w))
      then (js ! k)\<lparr>last_run_key := minute_stamp now\<rparr> else js ! k)"
proof (induction js arbitrary: i w k)
  case Nil then show ?case by simp
next
  case (Cons j js)
  let ?r = "run_due_loop run_job now i (j # js) w"
  have bound: "\<And>w'. \<forall>n\<in>set (fired (run_due_loop run_job now (Suc i) js w')). Suc i \<le> n"
  proof -
    fix w'
    obtain rest where "due_idx now (Suc i) js = fired (run_due_loop run_job now (Suc i) js w') @ rest"
      using fired_prefix [of now "Suc i" js run_job w'] by blast
    then have "set (fired (run_due_loop run_job now (Suc i) js w')) \<subseteq> set (due_idx now (Suc i) js)"
      by auto
    then show "\<forall>n\<in>set (fired (run_due_loop run_job now (Suc i) js w')). Suc i \<le> n"
      by (auto simp: set_due_idx)
  qed
  show ?case
  proof (cases "is_due now j")
    case False
    show ?thesis
    proof (cases k)
      case 0
      then show ?thesis using False bound [of w] by (auto simp: loop_skip skip_job_def)
    next
      case (Suc k')
      then show ?thesis using False Cons.IH [of k' "Suc i" w] Cons.prems
        by (simp add: loop_skip skip_job_def)
    qed
  next
    case True
    obtain e w' where rj: "run_job j w = (e, w')" by (cases "run_job j w")
    show ?thesis
    proof (cases e)
      case None
      show ?thesis
      proof (cases k)
        case 0
        then show ?thesis using True rj None by (simp add: loop_fire_ok Let_def)
      next
        case (Suc k')
        then show ?thesis using True rj None Cons.IH [of k' "Suc i" w'] Cons.prems
          by (simp add: loop_fire_ok Let_def)
      qed
    next
      case (Some x)
      show ?thesis
      proof (cases k)
        case 0
        then show ?thesis using True rj Some by (simp add: loop_fire_raise)
      next
        case (Suc k')
        then show ?thesis using True rj Some by (simp add: loop_fire_raise)
      qed
    qed
  qed
qed

definition calendar_minute :: "datetime \<Rightarrow> nat \<times> nat \<times> nat \<times> nat \<times> nat" where
  "calendar_minute t = (dt_year t, dt_month t, dt_day t, dt_hour t, dt_minute t)"

lemma minute_stamp_cong: "calendar_minute t = calendar_minute t' \<Longrightarrow> minute_stamp t = minute_stamp t'"
  by (simp add: calendar_minute_def minute_stamp_def)

lemma fired_subset_due:
  "set (fired (run_due_loop run_job now i js w)) \<subseteq> set (due_idx now i js)"
proof -
  obtain rest where "due_idx now i js = fired (run_due_loop run_job now i js w) @ rest"
    using fired_prefix [of now i js run_job w] by blast
  then show ?thesis by auto
qed

lemma fired_distinct: "distinct (fired (run_due_loop run_job now i js w))"
proof -
  obtain rest where "due_idx now i js = fired (run_due_loop run_job now i js w) @ rest"
    using fired_prefix [of now i js run_job w] by blast
  moreover have "distinct (due_idx now i js)"
    using due_idx_increasing [of now i js] by (simp add: strict_sorted_iff)
  ultimately show ?thesis by (metis distinct_append)
qed

lemma distinct_count_le_1: "distinct xs \<Longrightarrow> count_list xs x \<le> 1"
  by (induction xs) auto

lemma tick_fired:
  "fst (tick run_job now a) =
     (if running a then fired (run_due_loop run_job now 0 (jobs a) (world a)) else [])"
  by (auto simp: tick_def run_due_jobs_def Let_def split: option.splits prod.splits)

lemma tick_jobs:
  "jobs (snd (tick run_job now a)) =
     (if running a then jobs_after (run_due_loop run_job now 0 (jobs a) (world a)) else jobs a)"
  by (auto simp: tick_def run_due_jobs_def Let_def split: option.splits prod.splits)

lemma tick_running: "running (snd (tick run_job now a)) = running a"
  by (auto simp: tick_def run_due_jobs_def Let_def split: option.splits prod.splits)

lemma tick_fired_due:
  "k \<in> set (fst (tick run_job now a)) \<Longrightarrow> k < length (jobs a) \<and> is_due now (jobs a ! k)"
  using fired_subset_due [of run_job now 0 "jobs a" "world a"]
  by (auto simp: tick_fired set_due_idx split: if_splits)

lemma tick_fired_distinct: "distinct (fst (tick run_job now a))"
  by (simp add: tick_fired fired_distinct)

lemma tick_length: "length (jobs (snd (tick run_job now a))) = length (jobs a)"
  by (simp add: tick_jobs length_jobs_after)

lemma tick_nth:
  "k < length (jobs a) \<Longrightarrow>
   jobs (snd (tick run_job now a)) ! k =
     (if k \<in> set (fst (tick run_job now a))
      then (jobs a ! k)\<lparr>last_run_key := minute_stamp now\<rparr> else jobs a ! k)"
  using jobs_after_nth [of k "jobs a" run_job now 0 "world a"]
  by (simp add: tick_jobs tick_fired)

lemma ticks_out_of_range:
  "length (jobs a) \<le> i \<Longrightarrow> i \<notin> set (fst (ticks run_job nows a))"
proof (induction nows arbitrary: a)
  case Nil then show ?case by simp
next
  case (Cons now nows)
  obtain fs a' where t: "tick run_job now a = (fs, a')" by (cases "tick run_job now a")
  have "i \<notin> set fs" using tick_fired_due [of i run_job now a] t Cons.prems by auto
  moreover have "length (jobs a') \<le> i" using tick_length [of run_job now a] t Cons.prems by simp
  ultimately show ?case using Cons.IH [of a'] t by (simp add: split_def Let_def)
qed

lemma ticks_already_fired:
  "\<forall>t\<in>set nows. minute_stamp t = K \<Longrightarrow> i < length (jobs a) \<Longrightarrow>
   last_run_key (jobs a ! i) = K \<Longrightarrow> i \<notin> set (fst (ticks run_job nows a))"
proof (induction nows arbitrary: a)
  case Nil then show ?case by simp
next
  case (Cons now nows)
  obtain fs a' where t: "tick run_job now a = (fs, a')" by (cases "tick run_job now a")
  have k: "minute_stamp now = K" using Cons.prems by simp
  have nf: "i \<notin> set fs"
    using tick_fired_due [of i run_job now a] t Cons.prems k by (auto simp: is_due_def)
  have "jobs a' ! i = jobs a ! i"
    using tick_nth [of i a run_job now] t nf Cons.prems by simp
  moreover have "i < length (jobs a')" using tick_length [of run_job now a] t Cons.prems by simp
  ultimately have "i \<notin> set (fst (ticks run_job nows a'))"
    using Cons.IH [of a'] Cons.prems by simp
  with nf show ?case using t by (simp add: split_def Let_def)
qed

lemma ticks_count:
  "\<forall>t\<in>set nows. minute_stamp t = K \<Longrightarrow> count_list (fst (ticks run_job nows a)) i \<le> 1"
proof (induction nows arbitrary: a)
  case Nil then show ?case by simp
next
  case (Cons now nows)
  obtain fs a' where t: "tick run_job now a = (fs, a')" by (cases "tick run_job now a")
  have k: "minute_stamp now = K" using Cons.prems by simp
  have unf: "fst (ticks run_job (now # nows) a) = fs @ fst (ticks run_job nows a')"
    using t by (simp add: split_def Let_def)
  show ?case
  proof (cases "i \<in> set fs")
    case True
    then have lt: "i < length (jobs a)" using tick_fired_due [of i run_job now a] t by simp
    have "jobs a' ! i = (jobs a ! i)\<lparr>last_run_key := K\<rparr>"
      using tick_nth [of i a run_job now] t True lt k by simp
    then have "last_run_key (jobs a' ! i) = K" by simp
    moreover have "i < length (jobs a')" using tick_length [of run_job now a] t lt by simp
    ultimately have "i \<notin> set (fst (ticks run_job nows a'))"
      using ticks_already_fired [of nows K i a' run_job] Cons.prems by simp
    then have "count_list (fst (ticks run_job nows a')) i = 0" by (simp add: count_list_0_iff)
    moreover have "count_list fs i \<le> 1"
      using tick_fired_distinct [of run_job now a] t distinct_count_le_1 [of fs i]
      by simp
    ultimately show ?thesis unfolding unf by simp
  next
    case False
    then have "count_list fs i = 0" by (simp add: count_list_0_iff)
    then show ?thesis unfolding unf using Cons.IH [of a'] Cons.prems by simp
  qed
qed

text \<open>
  C3: whenever a tick fires a due job, the job's \<open>last_run_key\<close> is the current
  minute-stamp afterwards, whatever \<open>run_job\<close> did (returned or raised: the
  assignment is in a \<open>finally\<close> block); and over any sequence of ticks whose clock
  readings lie in one calendar minute, each job fires at most once.
\<close>

theorem fires_at_most_once_per_minute:
  "(i \<in> set (fst (tick run_job now a)) \<longrightarrow>
      last_run_key (jobs (snd (tick run_job now a)) ! i) = minute_stamp now) \<and>
   ((\<forall>t\<in>set nows. calendar_minute t = calendar_minute now) \<longrightarrow>
      count_list (fst (ticks run_job nows a)) i \<le> 1)"
proof (intro conjI impI)
  assume f: "i \<in> set (fst (tick run_job now a))"
  then have "i < length (jobs a)" using tick_fired_due [of i run_job now a] by simp
  then show "last_run_key (jobs (snd (tick run_job now a)) ! i) = minute_stamp now"
    using tick_nth [of i a run_job now] f by simp
next
  assume "\<forall>t\<in>set nows. calendar_minute t = calendar_minute now"
  then have "\<forall>t\<in>set nows. minute_stamp t = minute_stamp now"
    by (auto intro: minute_stamp_cong)
  then show "count_list (fst (ticks run_job nows a)) i \<le> 1"
    by (rule ticks_count)
qed

text \<open>
  C2 (amended): on a call of \<open>_run_due_jobs\<close> in which no \<open>run_job\<close> raises, the
  job at position \<open>i\<close> fires if and only if \<open>enabled\<close> and \<open>schedule_enabled\<close> are
  true, the current weekday is an element of the job's \<open>days\<close> list as stored (an empty
  list contains no weekday, so such a job never fires), the current hour and minute
  equal the job's \<open>hour\<close> and \<open>minute\<close>, and \<open>last_run_key\<close> differs from the current
  minute-stamp.
\<close>

theorem due_job_fires_iff:
  assumes "fst (run_due_jobs run_job now a) = None"
  shows "i \<in> set (fst (snd (run_due_jobs run_job now a))) \<longleftrightarrow>
     i < length (jobs a) \<and> enabled (jobs a ! i) \<and> schedule_enabled (jobs a ! i) \<and>
     dt_weekday now \<in> set (days (jobs a ! i)) \<and>
     int (dt_hour now) = hour (jobs a ! i) \<and> int (dt_minute now) = minute (jobs a ! i) \<and>
     last_run_key (jobs a ! i) \<noteq> minute_stamp now"
proof -
  let ?r = "run_due_loop run_job now 0 (jobs a) (world a)"
  have nr: "raised ?r = None"
    using assms by (auto simp: run_due_jobs_def Let_def split: option.splits)
  have fs: "fst (snd (run_due_jobs run_job now a)) = fired ?r"
    by (auto simp: run_due_jobs_def Let_def split: option.splits)
  have "due_idx now 0 (jobs a) = fired ?r"
    using fired_prefix [of now 0 "jobs a" run_job "world a"] nr by auto
  then have "set (fired ?r) = {n. n < length (jobs a) \<and> is_due now (jobs a ! n)}"
    using set_due_idx [of now 0 "jobs a"] by simp
  then show ?thesis unfolding fs by (auto simp: is_due_def)
qed

text \<open>
  The specification's normalisation of \<open>days\<close> (an empty list stands for all seven
  weekdays). \<open>_run_due_jobs\<close> does not apply it: \<open>job_save\<close> does, when a job is saved
  from the editor, and \<open>refresh_dashboard\<close> shows an empty list as \<open>None\<close>.
\<close>

definition spec_effective_days :: "int list \<Rightarrow> int list" where
  "spec_effective_days ds = (if ds = [] then [0, 1, 2, 3, 4, 5, 6] else ds)"

definition monday_0300 :: "nat \<Rightarrow> datetime" where
  "monday_0300 s = \<lparr>dt_year = 2026, dt_month = 11, dt_day = 2, dt_hour = 3, dt_minute = 0,
                    dt_second = s, dt_weekday = 0\<rparr>"

definition nightly :: "int list \<Rightarrow> job" where
  "nightly ds = \<lparr>name = ''Nightly'', enabled = True, mode = ''local'',
     local_folders = [''/srv/logs''], ftp_target = [], ftp_folders = [],
     exclude_files = [''*.json''], exclude_folders = [''config''], schedule_enabled = True,
     days = ds, hour = 3, minute = 0, last_run_key = [], dry_run = False\<rparr>"

definition run_returns :: "unit runner" where
  "run_returns j w = (None, w)"

definition run_raises :: "unit runner" where
  "run_raises j w = (Some ''Unknown mode'', w)"

definition app_of :: "job list \<Rightarrow> unit app" where
  "app_of js = \<lparr>jobs = js, running = True, saved_jobs = js, app_log = [], world = ()\<rparr>"

text \<open>
  C2 as stated fails for a job whose stored \<open>days\<close> list is empty: every condition of
  the claim holds on Monday 2026-11-02 at 03:00 (with the empty list read as all seven
  days), no run raises, and the job does not fire.
\<close>

theorem empty_days_counterexample:
  "fst (run_due_jobs run_returns (monday_0300 5) (app_of [nightly []])) = None \<and>
   0 \<notin> set (fst (snd (run_due_jobs run_returns (monday_0300 5) (app_of [nightly []])))) \<and>
   0 < length (jobs (app_of [nightly []])) \<and>
   enabled (nightly []) \<and> schedule_enabled (nightly []) \<and>
   dt_weekday (monday_0300 5) \<in> set (spec_effective_days (days (nightly []))) \<and>
   int (dt_hour (monday_0300 5)) = hour (nightly []) \<and>
   int (dt_minute (monday_0300 5)) = minute (nightly []) \<and>
   last_run_key (nightly []) \<noteq> minute_stamp (monday_0300 5)"
  by code_simp

theorem due_job_fires_iff_witness:
  "fst (run_due_jobs run_returns (monday_0300 5) (app_of [nightly [0, 2]])) = None \<and>
   0 \<in> set (fst (snd (run_due_jobs run_returns (monday_0300 5) (app_of [nightly [0, 2]]))))"
proof -
  have h: "fst (run_due_jobs run_returns (monday_0300 5) (app_of [nightly [0, 2]])) = None"
    by code_simp
  have c: "0 < length (jobs (app_of [nightly [0, 2]])) \<and>
     enabled (jobs (app_of [nightly [0, 2]]) ! 0) \<and>
     schedule_enabled (jobs (app_of [nightly [0, 2]]) ! 0) \<and>
     dt_weekday (monday_0300 5) \<in> set (days (jobs (app_of [nightly [0, 2]]) ! 0)) \<and>
     int (dt_hour (monday_0300 5)) = hour (jobs (app_of [nightly [0, 2]]) ! 0) \<and>
     int (dt_minute (monday_0300 5)) = minute (jobs (app_of [nightly [0, 2]]) ! 0) \<and>
     last_run_key (jobs (app_of [nightly [0, 2]]) ! 0) \<noteq> minute_stamp (monday_0300 5)"
    by code_simp
  show ?thesis using h c due_job_fires_iff [OF h, of 0] by blast
qed

theorem fires_at_most_once_per_minute_witness:
  "fst (ticks run_raises [monday_0300 5, monday_0300 20, monday_0300 35] (app_of [nightly [0, 2]])) = [0] \<and>
   last_run_key (jobs (snd (tick run_raises (monday_0300 5) (app_of [nightly [0, 2]]))) ! 0)
     = minute_stamp (monday_0300 5) \<and>
   count_list (fst (ticks run_raises [monday_0300 5, monday_0300 20, monday_0300 35]
     (app_of [nightly [0, 2]]))) 0 \<le> 1"
proof -
  have f: "0 \<in> set (fst (tick run_raises (monday_0300 5) (app_of [nightly [0, 2]])))"
    by code_simp
  have m: "\<forall>t\<in>set [monday_0300 5, monday_0300 20, monday_0300 35].
             calendar_minute t = calendar_minute (monday_0300 5)"
    by code_simp
  have e: "fst (ticks run_raises [monday_0300 5, monday_0300 20, monday_0300 35] (app_of [nightly [0, 2]])) = [0]"
    by code_simp
  show ?thesis
    using f m e fires_at_most_once_per_minute [of 0 run_raises "monday_0300 5" "app_of [nightly [0, 2]]"
        "[monday_0300 5, monday_0300 20, monday_0300 35]"]
    by blast
qed

section \<open>CleanupEngine: trees, traces and the two backends\<close>

text \<open>
  Both backends work on a directory tree. A file carries one flag, \<open>locked\<close>: deleting
  it raises (a log file held open by the server on Windows, a permission error). A
  directory carries \<open>readable\<close> (locally: \<open>os.scandir\<close> and \<open>iterdir\<close> work on it; on an FTP
  server: \<open>CWD\<close> into it succeeds) and \<open>locked\<close> (removing it raises even when it is
  empty), and its entries by name, in the order a listing reports them.
\<close>

datatype node =
    is_File: File (locked: bool)
  | is_Dir: Dir (readable: bool) (locked: bool) (entries: "(string \<times> node) list")

type_synonym entries = "(string \<times> node) list"

text \<open>
  What a run does to the tree is recorded as a trace of the calls it issues, each with
  its result: a listing (\<open>os.scandir\<close> inside \<open>os.walk\<close>; the first \<open>cli.list_dir(rdir)\<close>
  of the remote \<open>walk_dir\<close>), the emptiness test that guards a removal (locally
  \<open>dp.exists() and dp.is_dir() and not any(dp.iterdir())\<close>; remotely the second call
  \<open>items2 = cli.list_dir(rdir)\<close> with \<open>not items2\<close>), a file deletion (\<open>Path.unlink\<close>,
  \<open>FTPClient.delete_file\<close>) and a directory removal (\<open>Path.rmdir\<close>,
  \<open>FTPClient.remove_dir\<close>). A listing and the emptiness test return \<open>Inr\<close> of their
  result or \<open>Inl\<close> of the exception they raised; for a deletion or a removal \<open>Some e\<close>
  is the exception raised and \<open>None\<close> is success.
\<close>

datatype 'p event =
    Listed 'p "exn + (string \<times> bool) list"
  | IsEmpty 'p "exn + bool"
  | Unlink 'p "exn option"
  | Rmdir 'p "exn option"

text \<open>
  The two counters of the source (\<open>deleted_files\<close>, \<open>deleted_dirs\<close>), the lines written
  to the logger and the trace. Every piece of a run returns its own outcome; \<open>seq\<close> puts
  two of them one after the other.
\<close>

record 'p outcome =
  deleted_files :: nat
  deleted_dirs :: nat
  log_lines :: "log_line list"
  trace :: "'p event list"

definition nothing :: "'p outcome" where
  "nothing = \<lparr>deleted_files = 0, deleted_dirs = 0, log_lines = [], trace = []\<rparr>"

definition seq :: "'p outcome \<Rightarrow> 'p outcome \<Rightarrow> 'p outcome" where
  "seq a b = \<lparr>deleted_files = deleted_files a + deleted_files b,
              deleted_dirs = deleted_dirs a + deleted_dirs b,
              log_lines = log_lines a @ log_lines b,
              trace = trace a @ trace b\<rparr>"

definition listing :: "entries \<Rightarrow> (string \<times> bool) list" where
  "listing cs = map (\<lambda>(n, c). (n, is_Dir c)) cs"

definition remove_entry :: "string \<Rightarrow> entries \<Rightarrow> entries" where
  "remove_entry n cs = filter (\<lambda>e. fst e \<noteq> n) cs"

subsection \<open>Local backend: \<open>local_cleanup_folder\<close> (src/app/main.py, lines 228-274)\<close>

text \<open>
  \<^verbatim>\<open>
  for root, dirs, files in os.walk(folder, topdown=False):
      rootp = pathlib.Path(root)
      for fn in files:
          if matches_any(fn, exclude_files):
              continue
          fp = rootp / fn
          try:
              if dry_run:
                  log.info(f"[DRY] delete file: {fp}")
              else:
                  fp.unlink(missing_ok=True)
                  log.info(f"Deleted file: {fp}")
              deleted_files += 1
          except Exception as e:
              log.warn(f"Failed delete file: {fp} :: {e}")
      for dn in dirs:
          if matches_any(dn, exclude_folders):
              continue
          dp = rootp / dn
          try:
              if dp.exists() and dp.is_dir() and not any(dp.iterdir()):
                  if dry_run:
                      log.info(f"[DRY] remove empty dir: {dp}")
                  else:
                      dp.rmdir()
                      log.info(f"Removed empty dir: {dp}")
                  deleted_dirs += 1
          except Exception:
              pass
  \<close>
  A \<open>pathlib.Path\<close> is the list of its parts; \<open>rootp / fn\<close> appends a part. The
  primitives below act on the entries of the directory \<open>rootp\<close>, by name.
\<close>

type_synonym path = "string list"

definition sep :: "platform \<Rightarrow> string" where
  "sep os = (case os of Posix \<Rightarrow> ''/'' | Windows \<Rightarrow> [CHR 0x5C])"

fun path_str :: "platform \<Rightarrow> path \<Rightarrow> string" where
  "path_str os [] = ''.''"
| "path_str os [a] = a"
| "path_str os (a # b # ps) = a @ sep os @ path_str os (b # ps)"

definition unlink_missing_ok :: "string \<Rightarrow> entries \<Rightarrow> exn option \<times> entries" where
  "unlink_missing_ok fn cs =
     (case map_of cs fn of
        None \<Rightarrow> (None, cs)
      | Some (File l) \<Rightarrow>
          if l then (Some ''[Errno 13] Permission denied'', cs) else (None, remove_entry fn cs)
      | Some (Dir r l es) \<Rightarrow> (Some ''[Errno 21] Is a directory'', cs))"

definition probe_empty :: "string \<Rightarrow> entries \<Rightarrow> exn + bool" where
  "probe_empty dn cs =
     (case map_of cs dn of
        None \<Rightarrow> Inr False
      | Some (File l) \<Rightarrow> Inr False
      | Some (Dir r l es) \<Rightarrow> if r then Inr (es = []) else Inl ''[Errno 13] Permission denied'')"

definition rmdir :: "string \<Rightarrow> entries \<Rightarrow> exn option \<times> entries" where
  "rmdir dn cs =
     (case map_of cs dn of
        None \<Rightarrow> (Some ''[Errno 2] No such file or directory'', cs)
      | Some (File l) \<Rightarrow> (Some ''[Errno 20] Not a directory'', cs)
      | Some (Dir r l es) \<Rightarrow>
          if es \<noteq> [] then (Some ''[Errno 39] Directory not empty'', cs)
          else if l then (Some ''[Errno 13] Permission denied'', cs)
          else (None, remove_entry dn cs))"

definition delete_file :: "platform \<Rightarrow> path \<Rightarrow> string list \<Rightarrow> bool \<Rightarrow> string \<Rightarrow> entries \<Rightarrow> entries \<times> path outcome" where
  "delete_file os rootp ex_files dry fn cs =
     (if matches_any os fn ex_files then (cs, nothing)
      else
        (let fp = rootp @ [fn]
         in if dry then
              (cs, \<lparr>deleted_files = 1, deleted_dirs = 0,
                    log_lines = [(INFO, ''[DRY] delete file: '' @ path_str os fp)], trace = []\<rparr>)
            else
              (case unlink_missing_ok fn cs of
                 (None, cs') \<Rightarrow>
                   (cs', \<lparr>deleted_files = 1, deleted_dirs = 0,
                          log_lines = [(INFO, ''Deleted file: '' @ path_str os fp)],
                          trace = [Unlink fp None]\<rparr>)
               | (Some e, cs') \<Rightarrow>
                   (cs', \<lparr>deleted_files = 0, deleted_dirs = 0,
                          log_lines = [(WARN, ''Failed delete file: '' @ path_str os fp @ '' :: '' @ e)],
                          trace = [Unlink fp (Some e)]\<rparr>))))"

fun delete_files :: "platform \<Rightarrow> path \<Rightarrow> string list \<Rightarrow> bool \<Rightarrow> string list \<Rightarrow> entries \<Rightarrow> entries \<times> path outcome" where
  "delete_files os rootp ex_files dry [] cs = (cs, nothing)"
| "delete_files os rootp ex_files dry (fn # files) cs =
     (let (cs1, o1) = delete_file os rootp ex_files dry fn cs;
          (cs2, o2) = delete_files os rootp ex_files dry files cs1
      in (cs2, seq o1 o2))"

definition remove_dir :: "platform \<Rightarrow> path \<Rightarrow> string list \<Rightarrow> bool \<Rightarrow> string \<Rightarrow> entries \<Rightarrow> entries \<times> path outcome" where
  "remove_dir os rootp ex_folders dry dn cs =
     (if matches_any os dn ex_folders then (cs, nothing)
      else
        (let dp = rootp @ [dn]
         in case probe_empty dn cs of
              Inl e \<Rightarrow> (cs, nothing\<lparr>trace := [IsEmpty dp (Inl e)]\<rparr>)
            | Inr False \<Rightarrow> (cs, nothing\<lparr>trace := [IsEmpty dp (Inr False)]\<rparr>)
            | Inr True \<Rightarrow>
                if dry then
                  (cs, \<lparr>deleted_files = 0, deleted_dirs = 1,
                        log_lines = [(INFO, ''[DRY] remove empty dir: '' @ path_str os dp)],
                        trace = [IsEmpty dp (Inr True)]\<rparr>)
                else
                  (case rmdir dn cs of
                     (None, cs') \<Rightarrow>
                       (cs', \<lparr>deleted_files = 0, deleted_dirs = 1,
                              log_lines = [(INFO, ''Removed empty dir: '' @ path_str os dp)],
                              trace = [IsEmpty dp (Inr True), Rmdir dp None]\<rparr>)
                   | (Some e, cs') \<Rightarrow>
                       (cs', nothing\<lparr>trace := [IsEmpty dp (Inr True), Rmdir dp (Some e)]\<rparr>))))"

fun remove_dirs :: "platform \<Rightarrow> path \<Rightarrow> string list \<Rightarrow> bool \<Rightarrow> string list \<Rightarrow> entries \<Rightarrow> entries \<times> path outcome" where
  "remove_dirs os rootp ex_folders dry [] cs = (cs, nothing)"
| "remove_dirs os rootp ex_folders dry (dn # dirs) cs =
     (let (cs1, o1) = remove_dir os rootp ex_folders dry dn cs;
          (cs2, o2) = remove_dirs os rootp ex_folders dry dirs cs1
      in (cs2, seq o1 o2))"

text \<open>
  \<open>os.walk(folder, topdown=False)\<close> is a generator: it lists a directory, walks each
  of its subdirectories, and only then yields the directory's own \<open>(root, dirs, files)\<close>
  (a listing that fails is swallowed and nothing is yielded for that directory). The
  body of the \<open>for\<close> loop therefore runs for a directory after the bodies of all its
  subdirectories and before the walk goes on with its siblings. \<open>os_walk\<close> is that
  interleaving: \<open>walk_subdirs\<close> is the generator walking the subdirectories, in
  listing order, and \<open>walk_body\<close> is the loop body for one yielded triple, run on the
  entries as the subdirectories' bodies have left them. The names \<open>dirs\<close> and \<open>files\<close>
  of the triple are those of the listing taken before the subdirectories were walked.

  The last argument of \<open>local_cleanup_folder\<close> is what the filesystem holds at
  \<open>folder\<close>: \<open>None\<close> when nothing is there (\<open>folder.exists()\<close> is false), a file
  (\<open>folder.is_dir()\<close> is false) or a directory. The function returns what is there
  after the run, and the outcome.
\<close>

definition walk_body :: "platform \<Rightarrow> string list \<Rightarrow> string list \<Rightarrow> bool \<Rightarrow> path \<Rightarrow> string list \<Rightarrow> string list \<Rightarrow> entries \<Rightarrow> entries \<times> path outcome" where
  "walk_body os ex_files ex_folders dry rootp dirs files cs =
     (let (cs1, o1) = delete_files os rootp ex_files dry files cs;
          (cs2, o2) = remove_dirs os rootp ex_folders dry dirs cs1
      in (cs2, seq o1 o2))"

fun os_walk :: "platform \<Rightarrow> string list \<Rightarrow> string list \<Rightarrow> bool \<Rightarrow> path \<Rightarrow> node \<Rightarrow> node \<times> path outcome"
  and walk_subdirs :: "platform \<Rightarrow> string list \<Rightarrow> string list \<Rightarrow> bool \<Rightarrow> path \<Rightarrow> entries \<Rightarrow> entries \<times> path outcome" where
  "os_walk os ex_files ex_folders dry rootp (File l) =
     (File l, nothing\<lparr>trace := [Listed rootp (Inl ''[Errno 20] Not a directory'')]\<rparr>)"
| "os_walk os ex_files ex_folders dry rootp (Dir r l cs) =
     (if \<not> r then
        (Dir r l cs, nothing\<lparr>trace := [Listed rootp (Inl ''[Errno 13] Permission denied'')]\<rparr>)
      else
        (let dirs = map fst (filter (\<lambda>e. is_Dir (snd e)) cs);
             files = map fst (filter (\<lambda>e. is_File (snd e)) cs);
             (cs1, o1) = walk_subdirs os ex_files ex_folders dry rootp cs;
             (cs2, o2) = walk_body os ex_files ex_folders dry rootp dirs files cs1
         in (Dir r l cs2, seq (nothing\<lparr>trace := [Listed rootp (Inr (listing cs))]\<rparr>) (seq o1 o2))))"
| "walk_subdirs os ex_files ex_folders dry rootp [] = ([], nothing)"
| "walk_subdirs os ex_files ex_folders dry rootp ((n, c) # cs) =
     (if is_Dir c then
        (let (c', o1) = os_walk os ex_files ex_folders dry (rootp @ [n]) c;
             (cs', o2) = walk_subdirs os ex_files ex_folders dry rootp cs
         in ((n, c') # cs', seq o1 o2))
      else
        (let (cs', o2) = walk_subdirs os ex_files ex_folders dry rootp cs
         in ((n, c) # cs', o2)))"

definition local_cleanup_folder :: "platform \<Rightarrow> path \<Rightarrow> string list \<Rightarrow> string list \<Rightarrow> bool \<Rightarrow> node option \<Rightarrow> node option \<times> path outcome" where
  "local_cleanup_folder os folder ex_files ex_folders dry fs =
     (case fs of
        None \<Rightarrow> (None, nothing\<lparr>log_lines := [(WARN, ''Local folder missing: '' @ path_str os folder)]\<rparr>)
      | Some (File l) \<Rightarrow>
          (fs, nothing\<lparr>log_lines := [(WARN, ''Not a directory: '' @ path_str os folder)]\<rparr>)
      | Some (Dir r l cs) \<Rightarrow>
          (let (t, out) = os_walk os ex_files ex_folders dry folder (Dir r l cs) in (Some t, out)))"

subsection \<open>Remote backend: \<open>ftp_cleanup_folder\<close> (src/app/main.py, lines 276-336)\<close>

text \<open>
  \<^verbatim>\<open>
  remote_folder = norm_remote(remote_folder).rstrip("/")
  if not remote_folder.startswith("/"):
      remote_folder = "/" + remote_folder

  def walk_dir(rdir: str):
      nonlocal deleted_files, deleted_dirs
      try:
          items = cli.list_dir(rdir)
      except Exception as e:
          log.warn(f"FTP list failed: {rdir} :: {e}")
          return
      for name, is_dir in items:
          if is_dir:
              if matches_any(name, exclude_folders):
                  continue
              walk_dir(rdir.rstrip("/") + "/" + name)
      for name, is_dir in items:
          if is_dir:
              continue
          if matches_any(name, exclude_files):
              continue
          p = rdir.rstrip("/") + "/" + name
          try:
              if dry_run:
                  log.info(f"[DRY] delete remote file: {p}")
              else:
                  cli.delete_file(p)
                  log.info(f"Deleted remote file: {p}")
              deleted_files += 1
          except Exception as e:
              log.warn(f"Failed delete remote file: {p} :: {e}")
      if rdir != remote_folder:
          try:
              items2 = cli.list_dir(rdir)
              if not items2:
                  if dry_run:
                      log.info(f"[DRY] remove remote empty dir: {rdir}")
                  else:
                      cli.remove_dir(rdir)
                      log.info(f"Removed remote empty dir: {rdir}")
                  deleted_dirs += 1
          except Exception:
              pass
  \<close>
  Remote paths are strings, built as the source builds them. The server's content
  under \<open>rdir\<close> is the tree passed along with it; \<open>walk_dir\<close> returns what is left of
  it (\<open>None\<close> when the directory itself has been removed).
\<close>

definition norm_remote :: "string \<Rightarrow> string" where
  "norm_remote p = map (\<lambda>c. if c = CHR 0x5C then CHR ''/'' else c) p"

definition rstrip_slash :: "string \<Rightarrow> string" where
  "rstrip_slash s = rev (dropWhile (\<lambda>c. c = CHR ''/'') (rev s))"

definition child_path :: "string \<Rightarrow> string \<Rightarrow> string" where
  "child_path rdir nm = rstrip_slash rdir @ ''/'' @ nm"

text \<open>
  \<open>FTPClient.list_dir\<close> (src/app/main.py, lines 168-215):
  \<^verbatim>\<open>
  remote_dir = remote_dir.rstrip("/") or "/"
  items: List[Tuple[str, bool]] = []
  try:
      self.ftp.cwd(remote_dir)
      for name, facts in self.ftp.mlsd():
          if name in (".", ".."):
              continue
          typ = (facts.get("type") or "").lower()
          is_dir = typ == "dir"
          items.append((name, is_dir))
      return items
  except Exception:
      pass
  self.ftp.cwd(remote_dir)
  try:
      names = self.ftp.nlst()
  except Exception:
      names = []
  for n in names:
      bn = n.rstrip("/").split("/")[-1]
      if bn in (".", "..", ""):
          continue
      is_dir = False
      cur = self.ftp.pwd()
      try:
          self.ftp.cwd(remote_dir + "/" + bn)
          is_dir = True
      except Exception:
          is_dir = False
      finally:
          try:
              self.ftp.cwd(cur)
          except Exception:
              self.ftp.cwd(remote_dir)
      items.append((bn, is_dir))
  return items
  \<close>
  The call raises only when \<open>cwd(remote_dir)\<close> does (the path is a file, is missing, or
  cannot be entered). In a directory that can be entered the result depends on how
  the server answers the two listing commands there (\<open>answer\<close>):
  \<^item> \<open>Mlsd\<close>: MLSD succeeds and its reply carries the \<open>type\<close> fact; every entry is
    reported with its type.
  \<^item> \<open>Mlsd_untyped\<close>: MLSD succeeds and its reply carries no \<open>type\<close> fact; \<open>typ\<close> is
    then \<open>""\<close> and every entry is reported with \<open>is_dir\<close> false.
  \<^item> \<open>Nlst\<close>: MLSD raises and NLST succeeds; every name is reported, and \<open>is_dir\<close> says
    whether \<open>cwd\<close> into it succeeded: a sub-directory that cannot be entered is
    reported as a file.
  \<^item> \<open>Neither\<close>: both raise; the result is the empty list, whatever the directory
    holds.

  \<open>ftplib\<close>'s \<open>mlsd\<close> reads the whole reply before it yields the first entry, so an
  MLSD that raises has put nothing into \<open>items\<close>. A directory that has just been
  entered can be entered again, so \<open>pwd\<close> and the \<open>cwd\<close> calls of the \<open>finally\<close> branch
  do not raise. The entries of a directory are the base names the server reports, so
  \<open>"."\<close> and \<open>".."\<close> are not among them and the base-name step changes nothing. The
  client \<open>cli\<close> is modelled by the answer the session gets in each directory.
\<close>

datatype answer = Mlsd | Mlsd_untyped | Nlst | Neither

type_synonym ftp_client = "string \<Rightarrow> answer"

definition cwd_ok :: "node \<Rightarrow> bool" where
  "cwd_ok t = (case t of File l \<Rightarrow> False | Dir r l cs \<Rightarrow> r)"

fun seen_as_dir :: "answer \<Rightarrow> node \<Rightarrow> bool" where
  "seen_as_dir Mlsd c = is_Dir c"
| "seen_as_dir Mlsd_untyped c = False"
| "seen_as_dir Nlst c = cwd_ok c"
| "seen_as_dir Neither c = False"

fun reported :: "answer \<Rightarrow> entries \<Rightarrow> (string \<times> bool) list" where
  "reported Mlsd cs = map (\<lambda>(n, c). (n, is_Dir c)) cs"
| "reported Mlsd_untyped cs = map (\<lambda>(n, c). (n, False)) cs"
| "reported Nlst cs = map (\<lambda>(n, c). (n, cwd_ok c)) cs"
| "reported Neither cs = []"

definition list_dir :: "ftp_client \<Rightarrow> string \<Rightarrow> node \<Rightarrow> exn + (string \<times> bool) list" where
  "list_dir cli remote_dir t =
     (case t of
        File l \<Rightarrow> Inl ''550 Failed to change directory''
      | Dir r l cs \<Rightarrow>
          if r then Inr (reported (cli remote_dir) cs) else Inl ''550 Permission denied'')"

definition cli_delete_file :: "string \<Rightarrow> entries \<Rightarrow> exn option \<times> entries" where
  "cli_delete_file nm cs =
     (case map_of cs nm of
        None \<Rightarrow> (Some ''550 No such file'', cs)
      | Some (File l) \<Rightarrow>
          if l then (Some ''550 Permission denied'', cs) else (None, remove_entry nm cs)
      | Some (Dir r l es) \<Rightarrow> (Some ''550 Not a regular file'', cs))"

definition ftp_delete_file :: "platform \<Rightarrow> string list \<Rightarrow> bool \<Rightarrow> string \<Rightarrow> string \<times> bool \<Rightarrow> entries \<Rightarrow> entries \<times> string outcome" where
  "ftp_delete_file os ex_files dry rdir item cs =
     (case item of (nm, is_dir) \<Rightarrow>
        if is_dir then (cs, nothing)
        else if matches_any os nm ex_files then (cs, nothing)
        else
          (let p = child_path rdir nm
           in if dry then
                (cs, \<lparr>deleted_files = 1, deleted_dirs = 0,
                      log_lines = [(INFO, ''[DRY] delete remote file: '' @ p)], trace = []\<rparr>)
              else
                (case cli_delete_file nm cs of
                   (None, cs') \<Rightarrow>
                     (cs', \<lparr>deleted_files = 1, deleted_dirs = 0,
                            log_lines = [(INFO, ''Deleted remote file: '' @ p)],
                            trace = [Unlink p None]\<rparr>)
                 | (Some e, cs') \<Rightarrow>
                     (cs', \<lparr>deleted_files = 0, deleted_dirs = 0,
                            log_lines = [(WARN, ''Failed delete remote file: '' @ p @ '' :: '' @ e)],
                            trace = [Unlink p (Some e)]\<rparr>))))"

fun ftp_delete_files :: "platform \<Rightarrow> string list \<Rightarrow> bool \<Rightarrow> string \<Rightarrow> (string \<times> bool) list \<Rightarrow> entries \<Rightarrow> entries \<times> string outcome" where
  "ftp_delete_files os ex_files dry rdir [] cs = (cs, nothing)"
| "ftp_delete_files os ex_files dry rdir (item # items) cs =
     (let (cs1, o1) = ftp_delete_file os ex_files dry rdir item cs;
          (cs2, o2) = ftp_delete_files os ex_files dry rdir items cs1
      in (cs2, seq o1 o2))"

definition cli_remove_dir :: "node \<Rightarrow> exn option" where
  "cli_remove_dir t =
     (case t of
        File l \<Rightarrow> Some ''550 Not a directory''
      | Dir r l es \<Rightarrow>
          if es \<noteq> [] then Some ''550 Directory not empty''
          else if l then Some ''550 Permission denied''
          else None)"

definition remove_if_empty :: "ftp_client \<Rightarrow> bool \<Rightarrow> string \<Rightarrow> string \<Rightarrow> node \<Rightarrow> node option \<times> string outcome" where
  "remove_if_empty cli dry remote_folder rdir t =
     (if rdir = remote_folder then (Some t, nothing)
      else
        (case list_dir cli rdir t of
           Inl e \<Rightarrow> (Some t, nothing\<lparr>trace := [IsEmpty rdir (Inl e)]\<rparr>)
         | Inr items2 \<Rightarrow>
             if items2 \<noteq> [] then (Some t, nothing\<lparr>trace := [IsEmpty rdir (Inr False)]\<rparr>)
             else if dry then
               (Some t, \<lparr>deleted_files = 0, deleted_dirs = 1,
                         log_lines = [(INFO, ''[DRY] remove remote empty dir: '' @ rdir)],
                         trace = [IsEmpty rdir (Inr True)]\<rparr>)
             else
               (case cli_remove_dir t of
                  Some e \<Rightarrow>
                    (Some t, nothing\<lparr>trace := [IsEmpty rdir (Inr True), Rmdir rdir (Some e)]\<rparr>)
                | None \<Rightarrow>
                    (None, \<lparr>deleted_files = 0, deleted_dirs = 1,
                            log_lines = [(INFO, ''Removed remote empty dir: '' @ rdir)],
                            trace = [IsEmpty rdir (Inr True), Rmdir rdir None]\<rparr>))))"

definition list_failed :: "string \<Rightarrow> exn \<Rightarrow> string outcome" where
  "list_failed rdir e =
     \<lparr>deleted_files = 0, deleted_dirs = 0,
      log_lines = [(WARN, ''FTP list failed: '' @ rdir @ '' :: '' @ e)],
      trace = [Listed rdir (Inl e)]\<rparr>"

text \<open>
  \<open>walk_dir\<close> follows the source's three loops. The first, over the items reported as
  directories, is \<open>walk_items\<close>: it goes through the entries of the directory, and an
  entry takes part when the listing reported it as a directory, which depends on the
  answer \<open>a\<close> the listing got (\<open>seen_as_dir\<close>).
\<close>

fun walk_dir :: "platform \<Rightarrow> ftp_client \<Rightarrow> string list \<Rightarrow> string list \<Rightarrow> bool \<Rightarrow> string \<Rightarrow> string \<Rightarrow> node \<Rightarrow> node option \<times> string outcome"
  and walk_items :: "platform \<Rightarrow> ftp_client \<Rightarrow> string list \<Rightarrow> string list \<Rightarrow> bool \<Rightarrow> string \<Rightarrow> string \<Rightarrow> answer \<Rightarrow> entries \<Rightarrow> entries \<times> string outcome" where
  "walk_dir os cli ex_files ex_folders dry remote_folder rdir (File l) =
     (case list_dir cli rdir (File l) of
        Inl e \<Rightarrow> (Some (File l), list_failed rdir e)
      | Inr items \<Rightarrow> (Some (File l), nothing))"
| "walk_dir os cli ex_files ex_folders dry remote_folder rdir (Dir r l cs) =
     (case list_dir cli rdir (Dir r l cs) of
        Inl e \<Rightarrow> (Some (Dir r l cs), list_failed rdir e)
      | Inr items \<Rightarrow>
          (let (cs1, o1) = walk_items os cli ex_files ex_folders dry remote_folder rdir (cli rdir) cs;
               (cs2, o2) = ftp_delete_files os ex_files dry rdir items cs1;
               (t3, o3) = remove_if_empty cli dry remote_folder rdir (Dir r l cs2)
           in (t3, seq (nothing\<lparr>trace := [Listed rdir (Inr items)]\<rparr>) (seq o1 (seq o2 o3)))))"
| "walk_items os cli ex_files ex_folders dry remote_folder rdir a [] = ([], nothing)"
| "walk_items os cli ex_files ex_folders dry remote_folder rdir a ((nm, c) # cs) =
     (if seen_as_dir a c \<and> \<not> matches_any os nm ex_folders then
        (let (c', o1) = walk_dir os cli ex_files ex_folders dry remote_folder (child_path rdir nm) c;
             (cs', o2) = walk_items os cli ex_files ex_folders dry remote_folder rdir a cs
         in ((case c' of None \<Rightarrow> cs' | Some c'' \<Rightarrow> (nm, c'') # cs'), seq o1 o2))
      else
        (let (cs', o2) = walk_items os cli ex_files ex_folders dry remote_folder rdir a cs
         in ((nm, c) # cs', o2)))"

definition remote_root :: "string \<Rightarrow> string" where
  "remote_root remote_folder =
     (let rf = rstrip_slash (norm_remote remote_folder)
      in if take 1 rf = ''/'' then rf else ''/'' @ rf)"

definition ftp_cleanup_folder :: "platform \<Rightarrow> ftp_client \<Rightarrow> string \<Rightarrow> string list \<Rightarrow> string list \<Rightarrow> bool \<Rightarrow> node option \<Rightarrow> node option \<times> string outcome" where
  "ftp_cleanup_folder os cli remote_folder0 ex_files ex_folders dry srv =
     (let remote_folder = remote_root remote_folder0
      in case srv of
           None \<Rightarrow> (None, list_failed remote_folder ''550 Failed to change directory'')
         | Some t \<Rightarrow> walk_dir os cli ex_files ex_folders dry remote_folder remote_folder t)"

text \<open>A server on which MLSD works in every directory.\<close>

definition mlsd_server :: ftp_client where
  "mlsd_server = (\<lambda>rdir. Mlsd)"

lemma nothing_simps [simp]:
  "deleted_files nothing = 0" "deleted_dirs nothing = 0" "log_lines nothing = []" "trace nothing = []"
  by (simp_all add: nothing_def)

lemma seq_simps [simp]:
  "deleted_files (seq a b) = deleted_files a + deleted_files b"
  "deleted_dirs (seq a b) = deleted_dirs a + deleted_dirs b"
  "log_lines (seq a b) = log_lines a @ log_lines b"
  "trace (seq a b) = trace a @ trace b"
  by (simp_all add: seq_def)

section \<open>Properties of the cleanup engine\<close>

subsection \<open>A dry run mutates nothing\<close>

fun is_mutation :: "'p event \<Rightarrow> bool" where
  "is_mutation (Unlink p ok) = True"
| "is_mutation (Rmdir p ok) = True"
| "is_mutation e = False"

definition quiet :: "'p outcome \<Rightarrow> bool" where
  "quiet out \<longleftrightarrow> (\<forall>e\<in>set (trace out). \<not> is_mutation e)"

lemma quiet_nothing [simp]: "quiet nothing"
  by (simp add: quiet_def nothing_def)

lemma quiet_seq [simp]: "quiet (seq a b) \<longleftrightarrow> quiet a \<and> quiet b"
  by (auto simp: quiet_def seq_def)

lemma dry_delete_file:
  "fst (delete_file os rootp exf True fn cs) = cs \<and> quiet (snd (delete_file os rootp exf True fn cs))"
  by (simp add: delete_file_def quiet_def Let_def)

lemma dry_delete_files:
  "fst (delete_files os rootp exf True files cs) = cs \<and>
   quiet (snd (delete_files os rootp exf True files cs))"
proof (induction files)
  case Nil
  then show ?case by simp
next
  case (Cons fn files)
  then show ?case
    using dry_delete_file [of os rootp exf fn cs]
    by (simp add: split_def Let_def)
qed

lemma dry_remove_dir:
  "fst (remove_dir os rootp exd True dn cs) = cs \<and> quiet (snd (remove_dir os rootp exd True dn cs))"
  by (simp add: remove_dir_def quiet_def nothing_def Let_def split: sum.splits bool.splits)

lemma dry_remove_dirs:
  "fst (remove_dirs os rootp exd True dirs cs) = cs \<and>
   quiet (snd (remove_dirs os rootp exd True dirs cs))"
proof (induction dirs)
  case Nil
  then show ?case by simp
next
  case (Cons dn dirs)
  then show ?case
    using dry_remove_dir [of os rootp exd dn cs]
    by (simp add: split_def Let_def)
qed

lemma dry_walk_body:
  "fst (walk_body os exf exd True rootp dirs files cs) = cs \<and>
   quiet (snd (walk_body os exf exd True rootp dirs files cs))"
  using dry_delete_files [of os rootp exf files cs] dry_remove_dirs [of os rootp exd dirs cs]
  by (simp add: walk_body_def split_def Let_def)

text \<open>Structural induction over a tree and the entries of a directory together.\<close>

lemma node_entries_induct [case_names File Dir Nil Cons]:
  assumes F: "\<And>l. P (File l)"
    and D: "\<And>r l cs. Q cs \<Longrightarrow> P (Dir r l cs)"
    and N: "Q []"
    and C: "\<And>n c cs. P c \<Longrightarrow> Q cs \<Longrightarrow> Q ((n, c) # cs)"
  shows "P (t :: node)" and "Q (cs :: entries)"
proof -
  have el: "(\<And>n c. (n, c) \<in> set es \<Longrightarrow> P c) \<Longrightarrow> Q es" for es
    by (induction es) (auto intro: N C)
  have p: "P u" for u
  proof (induction u)
    case (File l)
    show ?case by (rule F)
  next
    case (Dir r l es)
    have "Q es"
    proof (rule el)
      fix n c assume "(n, c) \<in> set es"
      then show "P c" using Dir by fastforce
    qed
    then show ?case by (rule D)
  qed
  show "P t" by (rule p)
  show "Q cs" using el p by blast
qed

lemma dry_os_walk:
  "fst (os_walk os exf exd True rootp t) = t \<and> quiet (snd (os_walk os exf exd True rootp t))"
  and dry_walk_subdirs:
  "fst (walk_subdirs os exf exd True rootp cs) = cs \<and>
   quiet (snd (walk_subdirs os exf exd True rootp cs))"
proof (induction t and cs arbitrary: rootp and rootp rule: node_entries_induct)
  case (File l)
  show ?case by (simp add: quiet_def)
next
  case (Dir r l cs)
  show ?case
    using Dir [of rootp] dry_walk_body [of os exf exd rootp _ _ cs]
    by (simp add: split_def Let_def) (simp add: quiet_def)
next
  case Nil
  show ?case by simp
next
  case (Cons n c cs)
  show ?case
    using Cons(1) [of "rootp @ [n]"] Cons(2) [of rootp]
    by (simp add: split_def Let_def)
qed

lemma dry_ftp_delete_file:
  "fst (ftp_delete_file os exf True rdir item cs) = cs \<and>
   quiet (snd (ftp_delete_file os exf True rdir item cs))"
  by (cases item) (simp add: ftp_delete_file_def quiet_def Let_def)

lemma dry_ftp_delete_files:
  "fst (ftp_delete_files os exf True rdir items cs) = cs \<and>
   quiet (snd (ftp_delete_files os exf True rdir items cs))"
proof (induction items)
  case Nil
  then show ?case by simp
next
  case (Cons item items)
  then show ?case
    using dry_ftp_delete_file [of os exf rdir item cs]
    by (simp add: split_def Let_def)
qed

lemma dry_remove_if_empty:
  "fst (remove_if_empty cli True remote_folder rdir t) = Some t \<and>
   quiet (snd (remove_if_empty cli True remote_folder rdir t))"
  by (simp add: remove_if_empty_def quiet_def split: sum.splits option.splits)

lemma dry_walk_dir:
  "fst (walk_dir os cli exf exd True remote_folder rdir t) = Some t \<and>
   quiet (snd (walk_dir os cli exf exd True remote_folder rdir t))"
  and dry_walk_items:
  "fst (walk_items os cli exf exd True remote_folder rdir a cs) = cs \<and>
   quiet (snd (walk_items os cli exf exd True remote_folder rdir a cs))"
proof (induction t and cs arbitrary: rdir and rdir a rule: node_entries_induct)
  case (File l)
  show ?case by (simp add: list_dir_def list_failed_def quiet_def)
next
  case (Dir r l cs)
  show ?case
  proof (cases r)
    case False
    then show ?thesis by (simp add: list_dir_def list_failed_def quiet_def)
  next
    case True
    then show ?thesis
      using Dir [of rdir "cli rdir"] dry_ftp_delete_files [of os exf rdir "reported (cli rdir) cs" cs]
        dry_remove_if_empty [of cli remote_folder rdir "Dir r l cs"]
      by (simp add: list_dir_def split_def Let_def) (simp add: quiet_def)
  qed
next
  case Nil
  show ?case by simp
next
  case (Cons n c cs)
  show ?case
    using Cons(1) [of "child_path rdir n"] Cons(2) [of rdir a]
    by (simp add: split_def Let_def)
qed

text \<open>
  C1: with \<open>dry_run\<close> true, a run of \<open>local_cleanup_folder\<close> or of
  \<open>ftp_cleanup_folder\<close> issues no file deletion and no directory removal, and the tree
  after the run is the tree before it.
\<close>

theorem dry_run_no_mutation:
  "fst (local_cleanup_folder os folder exf exd True fs) = fs \<and>
   (\<forall>e\<in>set (trace (snd (local_cleanup_folder os folder exf exd True fs))). \<not> is_mutation e) \<and>
   fst (ftp_cleanup_folder os cli remote_folder exf exd True srv) = srv \<and>
   (\<forall>e\<in>set (trace (snd (ftp_cleanup_folder os cli remote_folder exf exd True srv))). \<not> is_mutation e)"
proof -
  have loc: "fst (local_cleanup_folder os folder exf exd True fs) = fs \<and>
             quiet (snd (local_cleanup_folder os folder exf exd True fs))"
  proof (cases fs)
    case None
    then show ?thesis by (simp add: local_cleanup_folder_def quiet_def)
  next
    case (Some t)
    show ?thesis
    proof (cases t)
      case (File l)
      with Some show ?thesis by (simp add: local_cleanup_folder_def quiet_def)
    next
      case (Dir r l cs)
      with Some show ?thesis
        using dry_os_walk [of os exf exd folder "Dir r l cs"]
        by (simp add: local_cleanup_folder_def split_def del: os_walk.simps)
    qed
  qed
  have ftp: "fst (ftp_cleanup_folder os cli remote_folder exf exd True srv) = srv \<and>
             quiet (snd (ftp_cleanup_folder os cli remote_folder exf exd True srv))"
  proof (cases srv)
    case None
    then show ?thesis by (simp add: ftp_cleanup_folder_def list_failed_def quiet_def Let_def)
  next
    case (Some t)
    then show ?thesis
      using dry_walk_dir [of os cli exf exd _ _ t]
      by (simp add: ftp_cleanup_folder_def Let_def del: walk_dir.simps)
  qed
  show ?thesis using loc ftp by (simp add: quiet_def)
qed

subsection \<open>Directories are removed only when found empty, and never the root\<close>

text \<open>
  \<open>rmdir_guarded\<close>: every removal in the trace comes directly after an emptiness test
  of the same path that found no children (locally \<open>not any(dp.iterdir())\<close>, remotely
  the second \<open>list_dir\<close> of \<open>walk_dir\<close> returning no item).
\<close>

fun found_empty :: "'p event \<Rightarrow> 'p \<Rightarrow> bool" where
  "found_empty (IsEmpty q (Inr True)) p = (q = p)"
| "found_empty e p = False"

fun rmdir_path :: "'p event \<Rightarrow> 'p option" where
  "rmdir_path (Rmdir p r) = Some p"
| "rmdir_path e = None"

fun guarded_from :: "'p event option \<Rightarrow> 'p event list \<Rightarrow> bool" where
  "guarded_from prev [] = True"
| "guarded_from prev (e # es) =
     ((case rmdir_path e of
         None \<Rightarrow> True
       | Some p \<Rightarrow> (case prev of None \<Rightarrow> False | Some c \<Rightarrow> found_empty c p)) \<and>
      guarded_from (Some e) es)"

definition rmdir_guarded :: "'p event list \<Rightarrow> bool" where
  "rmdir_guarded es = guarded_from None es"

lemma guarded_from_any: "guarded_from None es \<Longrightarrow> guarded_from prev es"
  by (cases es) (auto split: option.splits)

lemma guarded_from_append:
  "guarded_from prev as \<Longrightarrow> guarded_from None bs \<Longrightarrow> guarded_from prev (as @ bs)"
  by (induction as arbitrary: prev) (auto intro: guarded_from_any)

lemma rmdir_guarded_append:
  "rmdir_guarded as \<Longrightarrow> rmdir_guarded bs \<Longrightarrow> rmdir_guarded (as @ bs)"
  unfolding rmdir_guarded_def by (rule guarded_from_append)

lemma rmdir_guarded_Nil [simp]: "rmdir_guarded []"
  by (simp add: rmdir_guarded_def)

definition tidy :: "'p outcome \<Rightarrow> bool" where
  "tidy out \<longleftrightarrow> rmdir_guarded (trace out)"

lemma tidy_nothing [simp]: "tidy nothing"
  by (simp add: tidy_def)

lemma tidy_seq: "tidy a \<Longrightarrow> tidy b \<Longrightarrow> tidy (seq a b)"
  by (simp add: tidy_def rmdir_guarded_append)

lemma tidy_delete_file: "tidy (snd (delete_file os rootp exf dry fn cs))"
  by (simp add: delete_file_def tidy_def rmdir_guarded_def Let_def split: prod.splits option.splits)

lemma tidy_delete_files: "tidy (snd (delete_files os rootp exf dry files cs))"
proof (induction files arbitrary: cs)
  case Nil
  show ?case by simp
next
  case (Cons fn files)
  show ?case
    using tidy_delete_file [of os rootp exf dry fn cs] Cons
    by (simp add: split_def Let_def tidy_seq)
qed

lemma tidy_remove_dir: "tidy (snd (remove_dir os rootp exd dry dn cs))"
  by (simp add: remove_dir_def tidy_def rmdir_guarded_def Let_def
           split: prod.splits option.splits sum.splits bool.splits)

lemma tidy_remove_dirs: "tidy (snd (remove_dirs os rootp exd dry dirs cs))"
proof (induction dirs arbitrary: cs)
  case Nil
  show ?case by simp
next
  case (Cons dn dirs)
  show ?case
    using tidy_remove_dir [of os rootp exd dry dn cs] Cons
    by (simp add: split_def Let_def tidy_seq)
qed

lemma tidy_walk_body: "tidy (snd (walk_body os exf exd dry rootp dirs files cs))"
  by (simp add: walk_body_def split_def Let_def tidy_seq tidy_delete_files tidy_remove_dirs)

lemma tidy_os_walk: "tidy (snd (os_walk os exf exd dry rootp t))"
  and tidy_walk_subdirs: "tidy (snd (walk_subdirs os exf exd dry rootp cs))"
proof (induction t and cs arbitrary: rootp and rootp rule: node_entries_induct)
  case (File l)
  show ?case by (simp add: tidy_def rmdir_guarded_def)
next
  case (Dir r l cs)
  have "tidy (nothing\<lparr>trace := [Listed rootp x]\<rparr>)" for x
    by (simp add: tidy_def rmdir_guarded_def)
  then show ?case
    using Dir [of rootp]
    by (simp add: split_def Let_def tidy_seq tidy_walk_body)
next
  case Nil
  show ?case by simp
next
  case (Cons n c cs)
  show ?case
    using Cons(1) [of "rootp @ [n]"] Cons(2) [of rootp]
    by (simp add: split_def Let_def tidy_seq)
qed

text \<open>Local: a removed directory lies strictly below the directory being walked.\<close>

definition below :: "path \<Rightarrow> path outcome \<Rightarrow> bool" where
  "below rootp out \<longleftrightarrow> (\<forall>p r. Rmdir p r \<in> set (trace out) \<longrightarrow> length rootp < length p)"

lemma below_nothing [simp]: "below rootp nothing"
  by (simp add: below_def)

lemma below_seq: "below rootp a \<Longrightarrow> below rootp b \<Longrightarrow> below rootp (seq a b)"
  by (auto simp: below_def)

lemma below_delete_files: "below rootp (snd (delete_files os rootp exf dry files cs))"
proof (induction files arbitrary: cs)
  case Nil
  show ?case by simp
next
  case (Cons fn files)
  have "below rootp (snd (delete_file os rootp exf dry fn cs))"
    by (simp add: delete_file_def below_def Let_def split: prod.splits option.splits)
  then show ?case using Cons by (simp add: split_def Let_def below_seq)
qed

lemma below_remove_dirs: "below rootp (snd (remove_dirs os rootp exd dry dirs cs))"
proof (induction dirs arbitrary: cs)
  case Nil
  show ?case by simp
next
  case (Cons dn dirs)
  have "below rootp (snd (remove_dir os rootp exd dry dn cs))"
    by (simp add: remove_dir_def below_def Let_def
             split: prod.splits option.splits sum.splits bool.splits)
  then show ?case using Cons by (simp add: split_def Let_def below_seq)
qed

lemma below_weaken: "below (rootp @ [n]) out \<Longrightarrow> below rootp out"
  by (auto simp: below_def)

lemma below_os_walk: "below rootp (snd (os_walk os exf exd dry rootp t))"
  and below_walk_subdirs: "below rootp (snd (walk_subdirs os exf exd dry rootp cs))"
proof (induction t and cs arbitrary: rootp and rootp rule: node_entries_induct)
  case (File l)
  show ?case by (simp add: below_def)
next
  case (Dir r l cs)
  have "below rootp (nothing\<lparr>trace := [Listed rootp x]\<rparr>)" for x
    by (simp add: below_def)
  then show ?case
    using Dir [of rootp]
    by (simp add: split_def Let_def walk_body_def below_seq below_delete_files below_remove_dirs)
next
  case Nil
  show ?case by simp
next
  case (Cons n c cs)
  show ?case
    using Cons(1) [of "rootp @ [n]"] Cons(2) [of rootp]
    by (simp add: split_def Let_def below_seq below_weaken)
qed

lemma tidy_ftp_delete_files: "tidy (snd (ftp_delete_files os exf dry rdir items cs))"
proof (induction items arbitrary: cs)
  case Nil
  show ?case by simp
next
  case (Cons item items)
  have "tidy (snd (ftp_delete_file os exf dry rdir item cs))"
    by (cases item)
       (simp add: ftp_delete_file_def tidy_def rmdir_guarded_def Let_def
             split: prod.splits option.splits)
  then show ?case using Cons by (simp add: split_def Let_def tidy_seq)
qed

lemma tidy_remove_if_empty: "tidy (snd (remove_if_empty cli dry remote_folder rdir t))"
  by (simp add: remove_if_empty_def tidy_def rmdir_guarded_def
           split: sum.splits option.splits)

lemma tidy_walk_dir: "tidy (snd (walk_dir os cli exf exd dry remote_folder rdir t))"
  and tidy_walk_items: "tidy (snd (walk_items os cli exf exd dry remote_folder rdir a cs))"
proof (induction t and cs arbitrary: rdir and rdir a rule: node_entries_induct)
  case (File l)
  show ?case by (simp add: list_dir_def list_failed_def tidy_def rmdir_guarded_def)
next
  case (Dir r l cs)
  have "tidy (nothing\<lparr>trace := [Listed rdir x]\<rparr>)" for x
    by (simp add: tidy_def rmdir_guarded_def)
  moreover have "tidy (list_failed rdir e)" for e
    by (simp add: list_failed_def tidy_def rmdir_guarded_def)
  ultimately show ?case
    using Dir [of rdir "cli rdir"]
    by (simp add: list_dir_def split_def Let_def tidy_seq tidy_ftp_delete_files
          tidy_remove_if_empty)
next
  case Nil
  show ?case by simp
next
  case (Cons n c cs)
  show ?case
    using Cons(1) [of "child_path rdir n"] Cons(2) [of rdir a]
    by (simp add: split_def Let_def tidy_seq)
qed

definition spares :: "string \<Rightarrow> string outcome \<Rightarrow> bool" where
  "spares remote_folder out \<longleftrightarrow> (\<forall>r. Rmdir remote_folder r \<notin> set (trace out))"

lemma spares_nothing [simp]: "spares rf nothing"
  by (simp add: spares_def)

lemma spares_seq: "spares rf a \<Longrightarrow> spares rf b \<Longrightarrow> spares rf (seq a b)"
  by (auto simp: spares_def)

lemma spares_ftp_delete_files: "spares rf (snd (ftp_delete_files os exf dry rdir items cs))"
proof (induction items arbitrary: cs)
  case Nil
  show ?case by simp
next
  case (Cons item items)
  have "spares rf (snd (ftp_delete_file os exf dry rdir item cs))"
    by (cases item)
       (simp add: ftp_delete_file_def spares_def Let_def split: prod.splits option.splits)
  then show ?case using Cons by (simp add: split_def Let_def spares_seq)
qed

lemma spares_remove_if_empty: "spares rf (snd (remove_if_empty cli dry rf rdir t))"
  by (simp add: remove_if_empty_def spares_def split: sum.splits option.splits)

lemma spares_walk_dir: "spares rf (snd (walk_dir os cli exf exd dry rf rdir t))"
  and spares_walk_items: "spares rf (snd (walk_items os cli exf exd dry rf rdir a cs))"
proof (induction t and cs arbitrary: rdir and rdir a rule: node_entries_induct)
  case (File l)
  show ?case by (simp add: list_dir_def list_failed_def spares_def)
next
  case (Dir r l cs)
  have "spares rf (nothing\<lparr>trace := [Listed rdir x]\<rparr>)" for x
    by (simp add: spares_def)
  moreover have "spares rf (list_failed rdir e)" for e
    by (simp add: list_failed_def spares_def)
  ultimately show ?case
    using Dir [of rdir "cli rdir"]
    by (simp add: list_dir_def split_def Let_def spares_seq spares_ftp_delete_files
          spares_remove_if_empty)
next
  case Nil
  show ?case by simp
next
  case (Cons n c cs)
  show ?case
    using Cons(1) [of "child_path rdir n"] Cons(2) [of rdir a]
    by (simp add: split_def Let_def spares_seq)
qed

text \<open>
  C6: in both backends a directory removal is issued only directly after a check that
  found the directory without children, and never on the job's root folder (for the
  remote backend: the normalised \<open>remote_folder\<close>).
\<close>

theorem rmdir_only_when_empty_never_root:
  "rmdir_guarded (trace (snd (local_cleanup_folder os folder exf exd dry fs))) \<and>
   (\<forall>r. Rmdir folder r \<notin> set (trace (snd (local_cleanup_folder os folder exf exd dry fs)))) \<and>
   rmdir_guarded (trace (snd (ftp_cleanup_folder os cli remote_folder exf exd dry srv))) \<and>
   (\<forall>r. Rmdir (remote_root remote_folder) r
          \<notin> set (trace (snd (ftp_cleanup_folder os cli remote_folder exf exd dry srv))))"
proof -
  have loc: "tidy (snd (local_cleanup_folder os folder exf exd dry fs)) \<and>
             below folder (snd (local_cleanup_folder os folder exf exd dry fs))"
  proof (cases fs)
    case None
    then show ?thesis by (simp add: local_cleanup_folder_def tidy_def below_def)
  next
    case (Some t)
    show ?thesis
    proof (cases t)
      case (File l)
      with Some show ?thesis by (simp add: local_cleanup_folder_def tidy_def below_def)
    next
      case (Dir r l cs)
      with Some show ?thesis
        using tidy_os_walk [of os exf exd dry folder "Dir r l cs"]
          below_os_walk [of folder os exf exd dry "Dir r l cs"]
        by (simp add: local_cleanup_folder_def split_def Let_def del: os_walk.simps)
    qed
  qed
  have ftp: "tidy (snd (ftp_cleanup_folder os cli remote_folder exf exd dry srv)) \<and>
             spares (remote_root remote_folder) (snd (ftp_cleanup_folder os cli remote_folder exf exd dry srv))"
  proof (cases srv)
    case None
    then show ?thesis
      by (simp add: ftp_cleanup_folder_def list_failed_def tidy_def spares_def
            rmdir_guarded_def Let_def)
  next
    case (Some t)
    then show ?thesis
      using tidy_walk_dir [of os cli exf exd dry "remote_root remote_folder" "remote_root remote_folder" t]
        spares_walk_dir [of "remote_root remote_folder" os cli exf exd dry "remote_root remote_folder" t]
      by (simp add: ftp_cleanup_folder_def remote_root_def Let_def del: walk_dir.simps)
  qed
  from loc have "\<forall>r. Rmdir folder r \<notin> set (trace (snd (local_cleanup_folder os folder exf exd dry fs)))"
    by (auto simp: below_def)
  with loc ftp show ?thesis by (simp add: tidy_def spares_def)
qed

subsection \<open>A small tree to run the engine on\<close>

definition demo_tree :: node where
  "demo_tree = Dir True False
     [(''a.json'', File False), (''b.log'', File False),
      (''config'', Dir True False [(''c.log'', File False)]),
      (''old'', Dir True False [(''d.log'', File False)]),
      (''empty'', Dir True False [])]"

theorem dry_run_no_mutation_witness:
  "fst (local_cleanup_folder Posix [''srv'', ''logs''] [''*.json''] [''config''] True (Some demo_tree))
     = Some demo_tree \<and>
   IsEmpty [''srv'', ''logs'', ''empty''] (Inr True)
     \<in> set (trace (snd (local_cleanup_folder Posix [''srv'', ''logs''] [''*.json''] [''config''] True (Some demo_tree)))) \<and>
   \<not> is_mutation (IsEmpty [''srv'', ''logs'', ''empty''] (Inr True)) \<and>
   fst (ftp_cleanup_folder Posix mlsd_server ''/logs/'' [''*.json''] [''config''] True (Some demo_tree))
     = Some demo_tree \<and>
   Listed ''/logs/empty'' (Inr [])
     \<in> set (trace (snd (ftp_cleanup_folder Posix mlsd_server ''/logs/'' [''*.json''] [''config''] True (Some demo_tree)))) \<and>
   \<not> is_mutation (Listed ''/logs/empty'' (Inr []))"
proof -
  have a: "IsEmpty [''srv'', ''logs'', ''empty''] (Inr True)
     \<in> set (trace (snd (local_cleanup_folder Posix [''srv'', ''logs''] [''*.json''] [''config''] True (Some demo_tree))))"
    by code_simp
  have b: "Listed ''/logs/empty'' (Inr [])
     \<in> set (trace (snd (ftp_cleanup_folder Posix mlsd_server ''/logs/'' [''*.json''] [''config''] True (Some demo_tree))))"
    by code_simp
  show ?thesis
    using a b dry_run_no_mutation [of Posix "[''srv'', ''logs'']" "[''*.json'']" "[''config'']"
        "Some demo_tree" mlsd_server "''/logs/''" "Some demo_tree"]
    by blast
qed

theorem rmdir_only_when_empty_never_root_witness:
  "Rmdir [''srv'', ''logs'', ''old''] None
     \<in> set (trace (snd (local_cleanup_folder Posix [''srv'', ''logs''] [''*.json''] [''config''] False (Some demo_tree)))) \<and>
   rmdir_guarded (trace (snd (local_cleanup_folder Posix [''srv'', ''logs''] [''*.json''] [''config''] False (Some demo_tree)))) \<and>
   Rmdir [''srv'', ''logs''] None
     \<notin> set (trace (snd (local_cleanup_folder Posix [''srv'', ''logs''] [''*.json''] [''config''] False (Some demo_tree)))) \<and>
   Rmdir ''/logs/old'' None
     \<in> set (trace (snd (ftp_cleanup_folder Posix mlsd_server ''/logs/'' [''*.json''] [''config''] False (Some demo_tree)))) \<and>
   rmdir_guarded (trace (snd (ftp_cleanup_folder Posix mlsd_server ''/logs/'' [''*.json''] [''config''] False (Some demo_tree)))) \<and>
   Rmdir (remote_root ''/logs/'') None
     \<notin> set (trace (snd (ftp_cleanup_folder Posix mlsd_server ''/logs/'' [''*.json''] [''config''] False (Some demo_tree))))"
proof -
  have a: "Rmdir [''srv'', ''logs'', ''old''] None
     \<in> set (trace (snd (local_cleanup_folder Posix [''srv'', ''logs''] [''*.json''] [''config''] False (Some demo_tree))))"
    by code_simp
  have b: "Rmdir ''/logs/old'' None
     \<in> set (trace (snd (ftp_cleanup_folder Posix mlsd_server ''/logs/'' [''*.json''] [''config''] False (Some demo_tree))))"
    by code_simp
  show ?thesis
    using a b rmdir_only_when_empty_never_root [of Posix "[''srv'', ''logs'']" "[''*.json'']"
        "[''config'']" False "Some demo_tree" mlsd_server "''/logs/''" "Some demo_tree"]
    by blast
qed

subsection \<open>A file that is gone by the time it is unlinked\<close>

lemma delete_file_missing:
  "\<not> matches_any os fn exf \<Longrightarrow> map_of cs fn = None \<Longrightarrow>
   delete_file os rootp exf False fn cs =
     (cs, \<lparr>deleted_files = 1, deleted_dirs = 0,
           log_lines = [(INFO, ''Deleted file: '' @ path_str os (rootp @ [fn]))],
           trace = [Unlink (rootp @ [fn]) None]\<rparr>)"
  by (simp add: delete_file_def unlink_missing_ok_def Let_def)

lemma delete_files_all_missing:
  "\<forall>fn\<in>set files. map_of cs fn = None \<Longrightarrow>
   delete_files os rootp exf False files cs =
     (cs, \<lparr>deleted_files = length (filter (\<lambda>fn. \<not> matches_any os fn exf) files),
           deleted_dirs = 0,
           log_lines = map (\<lambda>fn. (INFO, ''Deleted file: '' @ path_str os (rootp @ [fn])))
                         (filter (\<lambda>fn. \<not> matches_any os fn exf) files),
           trace = map (\<lambda>fn. Unlink (rootp @ [fn]) None)
                     (filter (\<lambda>fn. \<not> matches_any os fn exf) files)\<rparr>)"
proof (induction files)
  case Nil
  show ?case by (simp add: nothing_def)
next
  case (Cons fn files)
  then have IH: "delete_files os rootp exf False files cs =
     (cs, \<lparr>deleted_files = length (filter (\<lambda>fn. \<not> matches_any os fn exf) files),
           deleted_dirs = 0,
           log_lines = map (\<lambda>fn. (INFO, ''Deleted file: '' @ path_str os (rootp @ [fn])))
                         (filter (\<lambda>fn. \<not> matches_any os fn exf) files),
           trace = map (\<lambda>fn. Unlink (rootp @ [fn]) None)
                     (filter (\<lambda>fn. \<not> matches_any os fn exf) files)\<rparr>)"
    by simp
  from Cons.prems have miss: "map_of cs fn = None" by simp
  show ?case
  proof (cases "matches_any os fn exf")
    case True
    then have "delete_file os rootp exf False fn cs = (cs, nothing)"
      by (simp add: delete_file_def)
    with True IH show ?thesis by (simp add: seq_def nothing_def)
  next
    case False
    with miss IH show ?thesis by (simp add: delete_file_missing seq_def)
  qed
qed

text \<open>
  C10: in the local backend, when the file loop reaches a name that is not excluded and
  that no longer exists in the directory (\<open>unlink(missing_ok=True)\<close> finds nothing),
  nothing is raised and no warning is logged: the loop logs \<open>Deleted file\<close>, adds one
  to \<open>deleted_files\<close> and goes on. When every listed file is gone, the directory is
  unchanged and the counter is the number of listed names that are not excluded.
\<close>

theorem unlink_of_missing_file_is_counted:
  "(\<not> matches_any os fn exf \<and> map_of cs fn = None \<longrightarrow>
      delete_files os rootp exf False (fn # files) cs =
        (fst (delete_files os rootp exf False files cs),
         seq \<lparr>deleted_files = 1, deleted_dirs = 0,
              log_lines = [(INFO, ''Deleted file: '' @ path_str os (rootp @ [fn]))],
              trace = [Unlink (rootp @ [fn]) None]\<rparr>
             (snd (delete_files os rootp exf False files cs)))) \<and>
   ((\<forall>fn\<in>set files. map_of cs fn = None) \<longrightarrow>
      fst (delete_files os rootp exf False files cs) = cs \<and>
      deleted_files (snd (delete_files os rootp exf False files cs))
        = length (filter (\<lambda>fn. \<not> matches_any os fn exf) files) \<and>
      (\<forall>l\<in>set (log_lines (snd (delete_files os rootp exf False files cs))). fst l = INFO))"
proof (intro conjI impI)
  assume "\<not> matches_any os fn exf \<and> map_of cs fn = None"
  then show "delete_files os rootp exf False (fn # files) cs =
        (fst (delete_files os rootp exf False files cs),
         seq \<lparr>deleted_files = 1, deleted_dirs = 0,
              log_lines = [(INFO, ''Deleted file: '' @ path_str os (rootp @ [fn]))],
              trace = [Unlink (rootp @ [fn]) None]\<rparr>
             (snd (delete_files os rootp exf False files cs)))"
    by (simp add: delete_file_missing split_def Let_def)
next
  assume a: "\<forall>fn\<in>set files. map_of cs fn = None"
  show "fst (delete_files os rootp exf False files cs) = cs"
    by (simp add: delete_files_all_missing [OF a])
  show "deleted_files (snd (delete_files os rootp exf False files cs))
        = length (filter (\<lambda>fn. \<not> matches_any os fn exf) files)"
    by (simp add: delete_files_all_missing [OF a])
  show "\<forall>l\<in>set (log_lines (snd (delete_files os rootp exf False files cs))). fst l = INFO"
    by (auto simp: delete_files_all_missing [OF a])
qed

theorem unlink_of_missing_file_is_counted_witness:
  "\<not> matches_any Posix ''gone.log'' [''*.json''] \<and>
   map_of [(''keep.json'', File False)] ''gone.log'' = None \<and>
   delete_files Posix [''srv'', ''logs''] [''*.json''] False [''gone.log'', ''keep.json'']
      [(''keep.json'', File False)] =
     ([(''keep.json'', File False)],
      \<lparr>deleted_files = 1, deleted_dirs = 0,
        log_lines = [(INFO, ''Deleted file: srv/logs/gone.log'')],
        trace = [Unlink [''srv'', ''logs'', ''gone.log''] None]\<rparr>)"
proof -
  have h: "\<not> matches_any Posix ''gone.log'' [''*.json''] \<and>
           map_of [(''keep.json'', File False)] ''gone.log'' = None"
    by code_simp
  have r: "delete_files Posix [''srv'', ''logs''] [''*.json''] False [''keep.json'']
      [(''keep.json'', File False)] = ([(''keep.json'', File False)], nothing)"
    by code_simp
  have s: "path_str Posix ([''srv'', ''logs''] @ [''gone.log'']) = ''srv/logs/gone.log''"
    by code_simp
  show ?thesis
    using h r s unlink_of_missing_file_is_counted [of Posix "''gone.log''" "[''*.json'']"
        "[(''keep.json'', File False)]" "[''srv'', ''logs'']" "[''keep.json'']"]
    by (simp add: seq_def nothing_def)
qed

subsection \<open>Failures of single items\<close>

text \<open>
  What a real run (\<open>dry_run\<close> false) accounts for. \<open>local_logged\<close> and \<open>ftp_logged\<close>
  give the lines that the source writes to the logger around each call: an INFO line
  after a deletion or a removal that returned, a WARN line in the \<open>except\<close> branch of a
  deletion (and, remote, of the first \<open>list_dir\<close>), and nothing in the \<open>except Exception:
  pass\<close> branch that catches a failed emptiness test or a failed removal. The counters
  are the numbers of successful deletions and removals. \<open>attempts\<close> is the trace
  without results and without the removals, whose issue depends on what was deleted;
  \<open>unlock\<close> is the same tree with nothing locked, on which no mutation fails.
\<close>

fun unlink_failed :: "'p event \<Rightarrow> bool" where
  "unlink_failed (Unlink p (Some e)) = True"
| "unlink_failed e = False"

fun rmdir_failed :: "'p event \<Rightarrow> bool" where
  "rmdir_failed (Rmdir p (Some e)) = True"
| "rmdir_failed e = False"

fun unlink_done :: "'p event \<Rightarrow> bool" where
  "unlink_done (Unlink p None) = True"
| "unlink_done e = False"

fun rmdir_done :: "'p event \<Rightarrow> bool" where
  "rmdir_done (Rmdir p None) = True"
| "rmdir_done e = False"

fun local_logged :: "platform \<Rightarrow> path event \<Rightarrow> log_line list" where
  "local_logged os (Unlink p None) = [(INFO, ''Deleted file: '' @ path_str os p)]"
| "local_logged os (Unlink p (Some e)) =
     [(WARN, ''Failed delete file: '' @ path_str os p @ '' :: '' @ e)]"
| "local_logged os (Rmdir p None) = [(INFO, ''Removed empty dir: '' @ path_str os p)]"
| "local_logged os (Rmdir p (Some e)) = []"
| "local_logged os (Listed p r) = []"
| "local_logged os (IsEmpty p r) = []"

fun ftp_logged :: "string event \<Rightarrow> log_line list" where
  "ftp_logged (Unlink p None) = [(INFO, ''Deleted remote file: '' @ p)]"
| "ftp_logged (Unlink p (Some e)) = [(WARN, ''Failed delete remote file: '' @ p @ '' :: '' @ e)]"
| "ftp_logged (Rmdir p None) = [(INFO, ''Removed remote empty dir: '' @ p)]"
| "ftp_logged (Rmdir p (Some e)) = []"
| "ftp_logged (Listed p (Inl e)) = [(WARN, ''FTP list failed: '' @ p @ '' :: '' @ e)]"
| "ftp_logged (Listed p (Inr items)) = []"
| "ftp_logged (IsEmpty p r) = []"

datatype 'p attempt = Lists 'p | Probes 'p | Deletes 'p

fun attempted :: "'p event \<Rightarrow> 'p attempt list" where
  "attempted (Listed p r) = [Lists p]"
| "attempted (IsEmpty p r) = [Probes p]"
| "attempted (Unlink p r) = [Deletes p]"
| "attempted (Rmdir p r) = []"

definition attempts :: "'p outcome \<Rightarrow> 'p attempt list" where
  "attempts out = concat (map attempted (trace out))"

fun unlock :: "node \<Rightarrow> node" and unlock_entries :: "entries \<Rightarrow> entries" where
  "unlock (File l) = File False"
| "unlock (Dir r l cs) = Dir r False (unlock_entries cs)"
| "unlock_entries [] = []"
| "unlock_entries ((n, c) # cs) = (n, unlock c) # unlock_entries cs"

definition accounted :: "('p event \<Rightarrow> log_line list) \<Rightarrow> 'p outcome \<Rightarrow> bool" where
  "accounted logged out \<longleftrightarrow>
     log_lines out = concat (map logged (trace out)) \<and>
     deleted_files out = length (filter unlink_done (trace out)) \<and>
     deleted_dirs out = length (filter rmdir_done (trace out))"

lemma accounted_nothing [simp]: "accounted w nothing"
  by (simp add: accounted_def)

lemma accounted_seq: "accounted w a \<Longrightarrow> accounted w b \<Longrightarrow> accounted w (seq a b)"
  by (simp add: accounted_def)

lemma attempts_nothing [simp]: "attempts nothing = []"
  by (simp add: attempts_def)

lemma attempts_seq [simp]: "attempts (seq a b) = attempts a @ attempts b"
  by (simp add: attempts_def)

lemma accounted_delete_file:
  "accounted (local_logged os) (snd (delete_file os rootp exf False fn cs))"
  by (simp add: delete_file_def accounted_def Let_def
           split: prod.splits option.splits)

lemma accounted_delete_files:
  "accounted (local_logged os) (snd (delete_files os rootp exf False files cs))"
proof (induction files arbitrary: cs)
  case Nil
  show ?case by simp
next
  case (Cons fn files)
  show ?case
    using accounted_delete_file [of os rootp exf fn cs] Cons
    by (simp add: split_def Let_def accounted_seq)
qed

lemma accounted_remove_dir:
  "accounted (local_logged os) (snd (remove_dir os rootp exd False dn cs))"
  by (simp add: remove_dir_def accounted_def Let_def
           split: prod.splits option.splits sum.splits bool.splits)

lemma accounted_remove_dirs:
  "accounted (local_logged os) (snd (remove_dirs os rootp exd False dirs cs))"
proof (induction dirs arbitrary: cs)
  case Nil
  show ?case by simp
next
  case (Cons dn dirs)
  show ?case
    using accounted_remove_dir [of os rootp exd dn cs] Cons
    by (simp add: split_def Let_def accounted_seq)
qed

lemma accounted_os_walk:
  "accounted (local_logged os) (snd (os_walk os exf exd False rootp t))"
  and accounted_walk_subdirs:
  "accounted (local_logged os) (snd (walk_subdirs os exf exd False rootp cs))"
proof (induction t and cs arbitrary: rootp and rootp rule: node_entries_induct)
  case (File l)
  show ?case by (simp add: accounted_def)
next
  case (Dir r l cs)
  have "accounted (local_logged os) (nothing\<lparr>trace := [Listed rootp x]\<rparr>)" for x
    by (simp add: accounted_def)
  then show ?case
    using Dir [of rootp]
    by (simp add: split_def Let_def walk_body_def accounted_seq accounted_delete_files
          accounted_remove_dirs)
next
  case Nil
  show ?case by simp
next
  case (Cons n c cs)
  show ?case
    using Cons(1) [of "rootp @ [n]"] Cons(2) [of rootp]
    by (simp add: split_def Let_def accounted_seq)
qed

lemma attempts_delete_files:
  "attempts (snd (delete_files os rootp exf False files cs)) =
     map (\<lambda>fn. Deletes (rootp @ [fn])) (filter (\<lambda>fn. \<not> matches_any os fn exf) files)"
proof (induction files arbitrary: cs)
  case Nil
  show ?case by simp
next
  case (Cons fn files)
  have "attempts (snd (delete_file os rootp exf False fn cs)) =
          (if matches_any os fn exf then [] else [Deletes (rootp @ [fn])])"
    by (simp add: delete_file_def attempts_def Let_def split: prod.splits option.splits)
  then show ?case using Cons by (simp add: split_def Let_def)
qed

lemma attempts_remove_dirs:
  "attempts (snd (remove_dirs os rootp exd False dirs cs)) =
     map (\<lambda>dn. Probes (rootp @ [dn])) (filter (\<lambda>dn. \<not> matches_any os dn exd) dirs)"
proof (induction dirs arbitrary: cs)
  case Nil
  show ?case by simp
next
  case (Cons dn dirs)
  have "attempts (snd (remove_dir os rootp exd False dn cs)) =
          (if matches_any os dn exd then [] else [Probes (rootp @ [dn])])"
    by (simp add: remove_dir_def attempts_def Let_def
             split: prod.splits option.splits sum.splits bool.splits)
  then show ?case using Cons by (simp add: split_def Let_def)
qed

lemma unlock_kind [simp]: "is_Dir (unlock c) = is_Dir c" "is_File (unlock c) = is_File c"
  by (cases c; simp)+

lemma unlock_entries_names:
  "map fst (filter (\<lambda>e. is_Dir (snd e)) (unlock_entries cs)) = map fst (filter (\<lambda>e. is_Dir (snd e)) cs)"
  "map fst (filter (\<lambda>e. is_File (snd e)) (unlock_entries cs)) = map fst (filter (\<lambda>e. is_File (snd e)) cs)"
  by (induction cs) auto

lemma attempts_os_walk:
  "attempts (snd (os_walk os exf exd False rootp (unlock t))) =
   attempts (snd (os_walk os exf exd False rootp t))"
  and attempts_walk_subdirs:
  "attempts (snd (walk_subdirs os exf exd False rootp (unlock_entries cs))) =
   attempts (snd (walk_subdirs os exf exd False rootp cs))"
proof (induction t and cs arbitrary: rootp and rootp rule: node_entries_induct)
  case (File l)
  show ?case by (simp add: attempts_def)
next
  case (Dir r l cs)
  have "attempts (nothing\<lparr>trace := [Listed rootp x]\<rparr>) = [Lists rootp]" for x
    by (simp add: attempts_def)
  then show ?case
    using Dir [of rootp]
    by (simp add: split_def Let_def walk_body_def attempts_delete_files attempts_remove_dirs
          unlock_entries_names)
next
  case Nil
  show ?case by simp
next
  case (Cons n c cs)
  show ?case
    using Cons(1) [of "rootp @ [n]"] Cons(2) [of rootp]
    by (simp add: split_def Let_def)
qed

lemma accounted_ftp_delete_files:
  "accounted ftp_logged (snd (ftp_delete_files os exf False rdir items cs))"
proof (induction items arbitrary: cs)
  case Nil
  show ?case by simp
next
  case (Cons item items)
  have "accounted ftp_logged (snd (ftp_delete_file os exf False rdir item cs))"
    by (cases item)
       (simp add: ftp_delete_file_def accounted_def Let_def
             split: prod.splits option.splits)
  then show ?case using Cons by (simp add: split_def Let_def accounted_seq)
qed

lemma accounted_remove_if_empty:
  "accounted ftp_logged (snd (remove_if_empty cli False rf rdir (Dir True l cs)))"
  by (simp add: remove_if_empty_def list_dir_def accounted_def
           split: option.splits)

lemma accounted_walk_dir:
  "accounted ftp_logged (snd (walk_dir os cli exf exd False rf rdir t))"
  and accounted_walk_items:
  "accounted ftp_logged (snd (walk_items os cli exf exd False rf rdir a cs))"
proof (induction t and cs arbitrary: rdir and rdir a rule: node_entries_induct)
  case (File l)
  show ?case by (simp add: list_dir_def list_failed_def accounted_def)
next
  case (Dir r l cs)
  show ?case
  proof (cases r)
    case False
    then show ?thesis by (simp add: list_dir_def list_failed_def accounted_def)
  next
    case True
    have "accounted ftp_logged (nothing\<lparr>trace := [Listed rdir (Inr x)]\<rparr>)" for x
      by (simp add: accounted_def)
    with True show ?thesis
      using Dir [of rdir "cli rdir"]
      by (simp add: list_dir_def split_def Let_def accounted_seq accounted_ftp_delete_files
            accounted_remove_if_empty)
  qed
next
  case Nil
  show ?case by simp
next
  case (Cons n c cs)
  show ?case
    using Cons(1) [of "child_path rdir n"] Cons(2) [of rdir a]
    by (simp add: split_def Let_def accounted_seq)
qed

lemma attempts_ftp_delete_files:
  "attempts (snd (ftp_delete_files os exf False rdir items cs)) =
     map (\<lambda>item. Deletes (child_path rdir (fst item)))
         (filter (\<lambda>item. \<not> snd item \<and> \<not> matches_any os (fst item) exf) items)"
proof (induction items arbitrary: cs)
  case Nil
  show ?case by simp
next
  case (Cons item items)
  have "attempts (snd (ftp_delete_file os exf False rdir item cs)) =
          (if \<not> snd item \<and> \<not> matches_any os (fst item) exf
           then [Deletes (child_path rdir (fst item))] else [])"
    by (cases item)
       (simp add: ftp_delete_file_def attempts_def Let_def split: prod.splits option.splits)
  then show ?case using Cons by (simp add: split_def Let_def)
qed

lemma attempts_remove_if_empty:
  "attempts (snd (remove_if_empty cli False rf rdir (Dir True l cs))) =
     (if rdir = rf then [] else [Probes rdir])"
  by (simp add: remove_if_empty_def list_dir_def attempts_def split: option.splits)

lemma listing_unlock [simp]: "listing (unlock_entries cs) = listing cs"
  by (induction cs) (auto simp: listing_def)

lemma cwd_ok_unlock [simp]: "cwd_ok (unlock c) = cwd_ok c"
  by (cases c) (simp_all add: cwd_ok_def)

lemma seen_as_dir_unlock [simp]: "seen_as_dir a (unlock c) = seen_as_dir a c"
  by (cases a) simp_all

lemma reported_unlock [simp]: "reported a (unlock_entries cs) = reported a cs"
  by (cases a; induction cs) auto

lemma attempts_walk_dir:
  "attempts (snd (walk_dir os cli exf exd False rf rdir (unlock t))) =
   attempts (snd (walk_dir os cli exf exd False rf rdir t))"
  and attempts_walk_items:
  "attempts (snd (walk_items os cli exf exd False rf rdir a (unlock_entries cs))) =
   attempts (snd (walk_items os cli exf exd False rf rdir a cs))"
proof (induction t and cs arbitrary: rdir and rdir a rule: node_entries_induct)
  case (File l)
  show ?case by (simp add: list_dir_def list_failed_def attempts_def)
next
  case (Dir r l cs)
  show ?case
  proof (cases r)
    case False
    then show ?thesis by (simp add: list_dir_def list_failed_def attempts_def)
  next
    case True
    have "attempts (nothing\<lparr>trace := [Listed rdir x]\<rparr>) = [Lists rdir]" for x
      by (simp add: attempts_def)
    with True show ?thesis
      using Dir [of rdir "cli rdir"]
      by (simp add: list_dir_def split_def Let_def attempts_ftp_delete_files
            attempts_remove_if_empty)
  qed
next
  case Nil
  show ?case by simp
next
  case (Cons n c cs)
  show ?case
    using Cons(1) [of "child_path rdir n"] Cons(2) [of rdir a]
    by (simp add: split_def Let_def)
qed

subsection \<open>The local walk and \<open>exclude_folders\<close>\<close>

text \<open>
  \<open>all_files\<close>: every file of every readable directory of the tree, in the order of
  the walk. \<open>exclude_folders\<close> is not an argument.
\<close>

fun all_files :: "path \<Rightarrow> node \<Rightarrow> path list" and all_files_in :: "path \<Rightarrow> entries \<Rightarrow> path list" where
  "all_files rootp (File l) = []"
| "all_files rootp (Dir r l cs) =
     (if r then all_files_in rootp cs @
                map (\<lambda>fn. rootp @ [fn]) (map fst (filter (\<lambda>e. is_File (snd e)) cs))
      else [])"
| "all_files_in rootp [] = []"
| "all_files_in rootp ((n, c) # cs) =
     (if is_Dir c then all_files (rootp @ [n]) c else []) @ all_files_in rootp cs"

fun unlinked :: "'p event \<Rightarrow> 'p list" where
  "unlinked (Unlink p r) = [p]"
| "unlinked e = []"

definition unlink_paths :: "'p outcome \<Rightarrow> 'p list" where
  "unlink_paths out = concat (map unlinked (trace out))"

lemma unlink_paths_nothing [simp]: "unlink_paths nothing = []"
  by (simp add: unlink_paths_def)

lemma unlink_paths_seq [simp]: "unlink_paths (seq a b) = unlink_paths a @ unlink_paths b"
  by (simp add: unlink_paths_def)

lemma unlink_paths_delete_files:
  "unlink_paths (snd (delete_files os rootp exf False files cs)) =
     filter (\<lambda>p. \<not> matches_any os (last p) exf) (map (\<lambda>fn. rootp @ [fn]) files)"
proof (induction files arbitrary: cs)
  case Nil
  show ?case by simp
next
  case (Cons fn files)
  have "unlink_paths (snd (delete_file os rootp exf False fn cs)) =
          (if matches_any os fn exf then [] else [rootp @ [fn]])"
    by (simp add: delete_file_def unlink_paths_def Let_def split: prod.splits option.splits)
  then show ?case using Cons by (simp add: split_def Let_def)
qed

lemma unlink_paths_remove_dirs:
  "unlink_paths (snd (remove_dirs os rootp exd dry dirs cs)) = []"
proof (induction dirs arbitrary: cs)
  case Nil
  show ?case by simp
next
  case (Cons dn dirs)
  have "unlink_paths (snd (remove_dir os rootp exd dry dn cs)) = []"
    by (simp add: remove_dir_def unlink_paths_def Let_def
             split: prod.splits option.splits sum.splits bool.splits)
  then show ?case using Cons by (simp add: split_def Let_def)
qed

lemma unlink_paths_os_walk:
  "unlink_paths (snd (os_walk os exf exd False rootp t)) =
     filter (\<lambda>p. \<not> matches_any os (last p) exf) (all_files rootp t)"
  and unlink_paths_walk_subdirs:
  "unlink_paths (snd (walk_subdirs os exf exd False rootp cs)) =
     filter (\<lambda>p. \<not> matches_any os (last p) exf) (all_files_in rootp cs)"
proof (induction t and cs arbitrary: rootp and rootp rule: node_entries_induct)
  case (File l)
  show ?case by (simp add: unlink_paths_def)
next
  case (Dir r l cs)
  have "unlink_paths (nothing\<lparr>trace := [Listed rootp x]\<rparr>) = []" for x
    by (simp add: unlink_paths_def)
  then show ?case
    using Dir [of rootp]
    by (simp add: split_def Let_def walk_body_def unlink_paths_delete_files
          unlink_paths_remove_dirs)
next
  case Nil
  show ?case by simp
next
  case (Cons n c cs)
  show ?case
    using Cons(1) [of "rootp @ [n]"] Cons(2) [of rootp]
    by (simp add: split_def Let_def)
qed

lemma dry_count_delete_files:
  "deleted_files (snd (delete_files os rootp exf True files cs)) =
     length (filter (\<lambda>p. \<not> matches_any os (last p) exf) (map (\<lambda>fn. rootp @ [fn]) files))"
proof (induction files arbitrary: cs)
  case Nil
  show ?case by simp
next
  case (Cons fn files)
  have "deleted_files (snd (delete_file os rootp exf True fn cs)) =
          (if matches_any os fn exf then 0 else 1)"
    by (simp add: delete_file_def Let_def)
  then show ?case using Cons by (simp add: split_def Let_def)
qed

lemma no_files_remove_dirs:
  "deleted_files (snd (remove_dirs os rootp exd dry dirs cs)) = 0"
proof (induction dirs arbitrary: cs)
  case Nil
  show ?case by simp
next
  case (Cons dn dirs)
  have "deleted_files (snd (remove_dir os rootp exd dry dn cs)) = 0"
    by (simp add: remove_dir_def Let_def
             split: prod.splits option.splits sum.splits bool.splits)
  then show ?case using Cons by (simp add: split_def Let_def)
qed

lemma dry_count_os_walk:
  "deleted_files (snd (os_walk os exf exd True rootp t)) =
     length (filter (\<lambda>p. \<not> matches_any os (last p) exf) (all_files rootp t))"
  and dry_count_walk_subdirs:
  "deleted_files (snd (walk_subdirs os exf exd True rootp cs)) =
     length (filter (\<lambda>p. \<not> matches_any os (last p) exf) (all_files_in rootp cs))"
proof (induction t and cs arbitrary: rootp and rootp rule: node_entries_induct)
  case (File l)
  show ?case by simp
next
  case (Dir r l cs)
  show ?case
    using Dir [of rootp]
    by (simp add: split_def Let_def walk_body_def dry_count_delete_files no_files_remove_dirs)
next
  case Nil
  show ?case by simp
next
  case (Cons n c cs)
  show ?case
    using Cons(1) [of "rootp @ [n]"] Cons(2) [of rootp]
    by (simp add: split_def Let_def)
qed

definition keeps_excluded :: "platform \<Rightarrow> string list \<Rightarrow> path outcome \<Rightarrow> bool" where
  "keeps_excluded os exd out \<longleftrightarrow>
     (\<forall>p r. Rmdir p r \<in> set (trace out) \<longrightarrow> \<not> matches_any os (last p) exd)"

lemma keeps_excluded_nothing [simp]: "keeps_excluded os exd nothing"
  by (simp add: keeps_excluded_def)

lemma keeps_excluded_seq:
  "keeps_excluded os exd a \<Longrightarrow> keeps_excluded os exd b \<Longrightarrow> keeps_excluded os exd (seq a b)"
  by (auto simp: keeps_excluded_def)

lemma keeps_excluded_delete_files:
  "keeps_excluded os exd (snd (delete_files os rootp exf dry files cs))"
proof (induction files arbitrary: cs)
  case Nil
  show ?case by simp
next
  case (Cons fn files)
  have "keeps_excluded os exd (snd (delete_file os rootp exf dry fn cs))"
    by (simp add: delete_file_def keeps_excluded_def Let_def split: prod.splits option.splits)
  then show ?case using Cons by (simp add: split_def Let_def keeps_excluded_seq)
qed

lemma keeps_excluded_remove_dirs:
  "keeps_excluded os exd (snd (remove_dirs os rootp exd dry dirs cs))"
proof (induction dirs arbitrary: cs)
  case Nil
  show ?case by simp
next
  case (Cons dn dirs)
  have "keeps_excluded os exd (snd (remove_dir os rootp exd dry dn cs))"
    by (simp add: remove_dir_def keeps_excluded_def Let_def
             split: prod.splits option.splits sum.splits bool.splits)
  then show ?case using Cons by (simp add: split_def Let_def keeps_excluded_seq)
qed

lemma keeps_excluded_os_walk:
  "keeps_excluded os exd (snd (os_walk os exf exd dry rootp t))"
  and keeps_excluded_walk_subdirs:
  "keeps_excluded os exd (snd (walk_subdirs os exf exd dry rootp cs))"
proof (induction t and cs arbitrary: rootp and rootp rule: node_entries_induct)
  case (File l)
  show ?case by (simp add: keeps_excluded_def)
next
  case (Dir r l cs)
  have "keeps_excluded os exd (nothing\<lparr>trace := [Listed rootp x]\<rparr>)" for x
    by (simp add: keeps_excluded_def)
  then show ?case
    using Dir [of rootp]
    by (simp add: split_def Let_def walk_body_def keeps_excluded_seq
          keeps_excluded_delete_files keeps_excluded_remove_dirs)
next
  case Nil
  show ?case by simp
next
  case (Cons n c cs)
  show ?case
    using Cons(1) [of "rootp @ [n]"] Cons(2) [of rootp]
    by (simp add: split_def Let_def keeps_excluded_seq)
qed

text \<open>
  \<open>distinct_names\<close>: no directory holds two entries of one name. \<open>cleaned\<close>: every
  file left in a readable directory is locked or has an excluded name.
\<close>

fun distinct_names :: "node \<Rightarrow> bool" and distinct_names_in :: "entries \<Rightarrow> bool" where
  "distinct_names (File l) = True"
| "distinct_names (Dir r l cs) = (distinct (map fst cs) \<and> distinct_names_in cs)"
| "distinct_names_in [] = True"
| "distinct_names_in ((n, c) # cs) = (distinct_names c \<and> distinct_names_in cs)"

fun cleaned :: "platform \<Rightarrow> string list \<Rightarrow> node \<Rightarrow> bool"
  and cleaned_in :: "platform \<Rightarrow> string list \<Rightarrow> entries \<Rightarrow> bool" where
  "cleaned os exf (File l) = True"
| "cleaned os exf (Dir r l cs) = (if r then cleaned_in os exf cs else True)"
| "cleaned_in os exf [] = True"
| "cleaned_in os exf ((n, c) # cs) =
     ((case c of File l \<Rightarrow> l \<or> matches_any os n exf | Dir r l es \<Rightarrow> cleaned os exf c) \<and>
      cleaned_in os exf cs)"

definition entry_ok :: "platform \<Rightarrow> string list \<Rightarrow> string \<times> node \<Rightarrow> bool" where
  "entry_ok os exf e =
     (case snd e of File l \<Rightarrow> l \<or> matches_any os (fst e) exf | Dir r l es \<Rightarrow> cleaned os exf (snd e))"

lemma cleaned_in_iff: "cleaned_in os exf cs \<longleftrightarrow> (\<forall>e\<in>set cs. entry_ok os exf e)"
proof (induction cs)
  case Nil
  show ?case by simp
next
  case (Cons e cs)
  obtain n c where "e = (n, c)" by (cases e)
  then show ?case using Cons by (cases c) (simp_all add: entry_ok_def del: cleaned.simps)
qed

lemma remove_entry_subset: "set (remove_entry n cs) \<subseteq> set cs"
  by (auto simp: remove_entry_def)

lemma remove_entry_names: "distinct (map fst cs) \<Longrightarrow> distinct (map fst (remove_entry n cs))"
  by (simp add: remove_entry_def distinct_map_filter)

lemma delete_file_subset: "set (fst (delete_file os rootp exf dry fn cs)) \<subseteq> set cs"
  using remove_entry_subset [of fn cs]
  by (auto simp: delete_file_def unlink_missing_ok_def Let_def
           split: option.splits node.splits if_splits)

lemma delete_file_names:
  "distinct (map fst cs) \<Longrightarrow> distinct (map fst (fst (delete_file os rootp exf dry fn cs)))"
  using remove_entry_names [of cs fn]
  by (auto simp: delete_file_def unlink_missing_ok_def Let_def
           split: option.splits node.splits if_splits)

lemma delete_file_gone:
  "distinct (map fst cs) \<Longrightarrow> \<not> matches_any os fn exf \<Longrightarrow>
   (fn, File False) \<notin> set (fst (delete_file os rootp exf False fn cs))"
proof -
  assume d: "distinct (map fst cs)" and nx: "\<not> matches_any os fn exf"
  show ?thesis
  proof (cases "map_of cs fn = Some (File False)")
    case True
    with nx have "fst (delete_file os rootp exf False fn cs) = remove_entry fn cs"
      by (simp add: delete_file_def unlink_missing_ok_def Let_def)
    then show ?thesis by (auto simp: remove_entry_def)
  next
    case False
    with d have "(fn, File False) \<notin> set cs"
      by (metis map_of_is_SomeI)
    then show ?thesis using delete_file_subset [of os rootp exf False fn cs] by blast
  qed
qed

lemma delete_files_subset: "set (fst (delete_files os rootp exf dry files cs)) \<subseteq> set cs"
proof (induction files arbitrary: cs)
  case Nil
  show ?case by simp
next
  case (Cons fn files)
  show ?case
    using Cons [of "fst (delete_file os rootp exf dry fn cs)"]
      delete_file_subset [of os rootp exf dry fn cs]
    by (auto simp: split_def Let_def)
qed

lemma delete_files_gone:
  "distinct (map fst cs) \<Longrightarrow> fn \<in> set files \<Longrightarrow> \<not> matches_any os fn exf \<Longrightarrow>
   (fn, File False) \<notin> set (fst (delete_files os rootp exf False files cs))"
proof (induction files arbitrary: cs)
  case Nil
  then show ?case by simp
next
  case (Cons f files)
  let ?cs1 = "fst (delete_file os rootp exf False f cs)"
  have d1: "distinct (map fst ?cs1)" using Cons.prems(1) by (rule delete_file_names)
  have unf: "fst (delete_files os rootp exf False (f # files) cs) =
             fst (delete_files os rootp exf False files ?cs1)"
    by (simp add: split_def Let_def)
  show ?case
  proof (cases "fn \<in> set files")
    case True
    then show ?thesis using Cons.IH [OF d1 True Cons.prems(3)] unf by simp
  next
    case False
    with Cons.prems have "fn = f" by simp
    then have "(fn, File False) \<notin> set ?cs1"
      using delete_file_gone [OF Cons.prems(1) Cons.prems(3), of rootp] Cons.prems(3)
      by (simp add: delete_file_gone Cons.prems)
    then show ?thesis
      using delete_files_subset [of os rootp exf False files ?cs1] unf by auto
  qed
qed

lemma remove_dir_subset: "set (fst (remove_dir os rootp exd dry dn cs)) \<subseteq> set cs"
  using remove_entry_subset [of dn cs]
  by (auto simp: remove_dir_def rmdir_def Let_def
           split: option.splits node.splits if_splits sum.splits bool.splits)

lemma remove_dirs_subset: "set (fst (remove_dirs os rootp exd dry dirs cs)) \<subseteq> set cs"
proof (induction dirs arbitrary: cs)
  case Nil
  show ?case by simp
next
  case (Cons dn dirs)
  show ?case
    using Cons [of "fst (remove_dir os rootp exd dry dn cs)"]
      remove_dir_subset [of os rootp exd dry dn cs]
    by (auto simp: split_def Let_def)
qed

lemma walk_subdirs_names:
  "map fst (fst (walk_subdirs os exf exd dry rootp cs)) = map fst cs"
  by (induction cs) (auto simp: split_def Let_def)

lemma walk_subdirs_map:
  "fst (walk_subdirs os exf exd dry rootp cs) =
     map (\<lambda>e. (fst e, if is_Dir (snd e)
                       then fst (os_walk os exf exd dry (rootp @ [fst e]) (snd e))
                       else snd e)) cs"
  by (induction cs) (auto simp: split_def Let_def)

lemma walk_subdirs_entry:
  "(n, c') \<in> set (fst (walk_subdirs os exf exd dry rootp cs)) \<Longrightarrow>
   \<exists>c. (n, c) \<in> set cs \<and>
       (if is_Dir c then c' = fst (os_walk os exf exd dry (rootp @ [n]) c) else c' = c)"
  unfolding walk_subdirs_map by (auto split: if_splits)

lemma os_walk_kind: "is_Dir (fst (os_walk os exf exd dry rootp t)) = is_Dir t"
  by (cases t) (auto simp: split_def Let_def)

lemma cleaned_os_walk:
  "distinct_names t \<Longrightarrow> cleaned os exf (fst (os_walk os exf exd False rootp t))"
  and cleaned_walk_subdirs:
  "distinct_names_in cs \<Longrightarrow>
   (\<forall>n c. (n, c) \<in> set cs \<and> is_Dir c \<longrightarrow>
      cleaned os exf (fst (os_walk os exf exd False (rootp @ [n]) c)))"
proof (induction t and cs arbitrary: rootp and rootp rule: node_entries_induct)
  case (File l)
  show ?case by simp
next
  case (Dir r l cs)
  show ?case
  proof (cases r)
    case False
    then show ?thesis by simp
  next
    case True
    let ?cs1 = "fst (walk_subdirs os exf exd False rootp cs)"
    let ?files = "map fst (filter (\<lambda>e. is_File (snd e)) cs)"
    let ?dirs = "map fst (filter (\<lambda>e. is_Dir (snd e)) cs)"
    let ?cs2 = "fst (delete_files os rootp exf False ?files ?cs1)"
    let ?cs3 = "fst (remove_dirs os rootp exd False ?dirs ?cs2)"
    have d1: "distinct (map fst ?cs1)" using Dir.prems by (simp add: walk_subdirs_names)
    have sub: "\<forall>n c. (n, c) \<in> set cs \<and> is_Dir c \<longrightarrow>
                 cleaned os exf (fst (os_walk os exf exd False (rootp @ [n]) c))"
      using Dir.IH [of rootp] Dir.prems by simp
    have ok: "entry_ok os exf e" if e: "e \<in> set ?cs2" for e
    proof -
      obtain n c' where nc: "e = (n, c')" by (cases e)
      from e have in1: "(n, c') \<in> set ?cs1"
        using delete_files_subset [of os rootp exf False ?files ?cs1] nc by blast
      then obtain c where c: "(n, c) \<in> set cs"
        and c': "if is_Dir c then c' = fst (os_walk os exf exd False (rootp @ [n]) c) else c' = c"
        using walk_subdirs_entry by blast
      show ?thesis
      proof (cases "is_Dir c")
        case True
        then have "cleaned os exf c'" using sub c c' by simp
        moreover have "is_Dir c'" using True c' by (simp add: os_walk_kind)
        ultimately show ?thesis by (cases c') (auto simp: entry_ok_def nc)
      next
        case False
        then obtain lk where lk: "c = File lk" by (cases c) auto
        then have eq: "c' = File lk" using c' False by simp
        have nf: "n \<in> set ?files" using c lk by force
        show ?thesis
        proof (cases "lk \<or> matches_any os n exf")
          case True
          then show ?thesis by (auto simp: entry_ok_def nc eq)
        next
          case False
          then have "(n, File False) \<notin> set ?cs2"
            using delete_files_gone [OF d1 nf, of os exf rootp] by simp
          with e nc eq False show ?thesis by simp
        qed
      qed
    qed
    have "\<forall>e\<in>set ?cs3. entry_ok os exf e"
      using ok remove_dirs_subset [of os rootp exd False ?dirs ?cs2] by blast
    then have "cleaned_in os exf ?cs3" by (simp add: cleaned_in_iff)
    with True show ?thesis by (simp add: split_def Let_def walk_body_def)
  qed
next
  case Nil
  show ?case by simp
next
  case (Cons n c cs)
  show ?case using Cons.IH(1) Cons.IH(2) [of rootp] Cons.prems by auto
qed

subsection \<open>The remote walk and \<open>exclude_folders\<close>\<close>

text \<open>
  A name of a directory entry is plain: not empty and without a slash. The path of an
  entry some levels below \<open>rdir\<close> is \<open>rdir.rstrip("/")\<close> followed by a slash and the
  name for each level.
\<close>

definition plain_name :: "string \<Rightarrow> bool" where
  "plain_name n \<longleftrightarrow> n \<noteq> [] \<and> CHR ''/'' \<notin> set n"

definition render :: "string list \<Rightarrow> string" where
  "render ns = concat (map (\<lambda>n. ''/'' @ n) ns)"

definition descend :: "string \<Rightarrow> string list \<Rightarrow> string" where
  "descend rdir ns = foldl child_path rdir ns"

definition slash_led :: "string \<Rightarrow> bool" where
  "slash_led r \<longleftrightarrow> r = [] \<or> hd r = CHR ''/''"

lemma render_Nil [simp]: "render [] = []"
  by (simp add: render_def)

lemma render_Cons [simp]: "render (n # ns) = ''/'' @ n @ render ns"
  by (simp add: render_def)

lemma slash_led_render [simp]: "slash_led (render ns)"
  by (cases ns) (simp_all add: slash_led_def)

lemma slash_led_append: "slash_led a \<Longrightarrow> a \<noteq> [] \<Longrightarrow> slash_led (a @ b)"
  by (cases a) (simp_all add: slash_led_def)

lemma plain_takeWhile:
  "plain_name n \<Longrightarrow> slash_led r \<Longrightarrow> takeWhile (\<lambda>c. c \<noteq> CHR ''/'') (n @ r) = n"
  by (cases r) (auto simp: plain_name_def slash_led_def takeWhile_append)

lemma plain_component:
  assumes "plain_name n" "plain_name m" "slash_led r" "slash_led s" "n @ r = m @ s"
  shows "n = m \<and> r = s"
proof -
  have "takeWhile (\<lambda>c. c \<noteq> CHR ''/'') (n @ r) = takeWhile (\<lambda>c. c \<noteq> CHR ''/'') (m @ s)"
    using assms(5) by simp
  then have "n = m" using assms(1-4) by (simp add: plain_takeWhile)
  with assms(5) show ?thesis by simp
qed

lemma render_inj:
  "\<forall>n\<in>set ns. plain_name n \<Longrightarrow> \<forall>m\<in>set ms. plain_name m \<Longrightarrow> render ns = render ms \<Longrightarrow> ns = ms"
proof (induction ns arbitrary: ms)
  case Nil
  then show ?case by (cases ms) auto
next
  case (Cons n ns)
  show ?case
  proof (cases ms)
    case Nil
    with Cons.prems show ?thesis by simp
  next
    case (Cons m ms')
    with Cons.prems have eq: "n @ render ns = m @ render ms'" by simp
    have "n = m \<and> render ns = render ms'"
      using plain_component [of n m "render ns" "render ms'"] Cons.prems \<open>ms = m # ms'\<close> eq
      by simp
    then show ?thesis using Cons.IH [of ms'] Cons.prems \<open>ms = m # ms'\<close> by simp
  qed
qed

lemma render_under:
  "\<forall>n\<in>set ds. plain_name n \<Longrightarrow> \<forall>m\<in>set ps. plain_name m \<Longrightarrow>
   render ps = render ds @ ''/'' @ rest \<Longrightarrow> \<exists>qs. ps = ds @ qs"
proof (induction ds arbitrary: ps)
  case Nil
  then show ?case by simp
next
  case (Cons d ds)
  show ?case
  proof (cases ps)
    case Nil
    with Cons.prems show ?thesis by simp
  next
    case (Cons p ps')
    with Cons.prems have eq: "p @ render ps' = d @ (render ds @ ''/'' @ rest)" by simp
    have led: "slash_led (render ds @ ''/'' @ rest)"
      by (cases ds) (simp_all add: slash_led_def)
    have "p = d \<and> render ps' = render ds @ ''/'' @ rest"
      using plain_component [of p d "render ps'" "render ds @ ''/'' @ rest"] Cons.prems
        \<open>ps = p # ps'\<close> eq led
      by simp
    then show ?thesis using Cons.IH [of ps'] Cons.prems \<open>ps = p # ps'\<close> by auto
  qed
qed

lemma rstrip_slash_plain:
  "plain_name n \<Longrightarrow> rstrip_slash (b @ ''/'' @ n) = b @ ''/'' @ n"
proof -
  assume p: "plain_name n"
  then have "n \<noteq> []" and "last n \<noteq> CHR ''/''"
    unfolding plain_name_def by (metis last_in_set)+
  then have "hd (rev n) \<noteq> CHR ''/''" and "rev n \<noteq> []"
    by (simp_all add: hd_rev)
  then have "dropWhile (\<lambda>c. c = CHR ''/'') (rev n @ x) = rev n @ x" for x
    by (cases "rev n") auto
  then show ?thesis by (simp add: rstrip_slash_def)
qed

lemma rstrip_slash_render:
  "\<forall>n\<in>set ns. plain_name n \<Longrightarrow> ns \<noteq> [] \<Longrightarrow> rstrip_slash (b @ render ns) = b @ render ns"
proof (induction ns arbitrary: b)
  case Nil
  then show ?case by simp
next
  case (Cons n ns)
  show ?case
  proof (cases ns)
    case Nil
    then show ?thesis using Cons.prems rstrip_slash_plain [of n b] by simp
  next
    case (Cons m ms)
    then show ?thesis using Cons.IH [of "b @ ''/'' @ n"] Cons.prems by simp
  qed
qed

lemma descend_render:
  "\<forall>n\<in>set ns. plain_name n \<Longrightarrow> ns \<noteq> [] \<Longrightarrow> descend rdir ns = rstrip_slash rdir @ render ns"
proof (induction ns arbitrary: rdir rule: rev_induct)
  case Nil
  then show ?case by simp
next
  case (snoc n ns)
  show ?case
  proof (cases "ns = []")
    case True
    then show ?thesis by (simp add: descend_def child_path_def)
  next
    case False
    then have "descend rdir ns = rstrip_slash rdir @ render ns"
      using snoc by simp
    moreover have "rstrip_slash (rstrip_slash rdir @ render ns) = rstrip_slash rdir @ render ns"
      using rstrip_slash_render [of ns "rstrip_slash rdir"] snoc.prems False by simp
    ultimately show ?thesis
      by (simp add: descend_def child_path_def render_def)
  qed
qed

lemma rstrip_slash_decomp: "\<exists>k. rdir = rstrip_slash rdir @ replicate k (CHR ''/'')"
proof -
  have "\<exists>k. xs = replicate k (CHR ''/'') @ dropWhile (\<lambda>c. c = CHR ''/'') xs" for xs :: string
  proof (induction xs)
    case Nil
    show ?case by simp
  next
    case (Cons x xs)
    show ?case
    proof (cases "x = CHR ''/''")
      case True
      from Cons obtain k where "xs = replicate k (CHR ''/'') @ dropWhile (\<lambda>c. c = CHR ''/'') xs" by blast
      then have "x # xs = replicate (Suc k) (CHR ''/'') @ dropWhile (\<lambda>c. c = CHR ''/'') (x # xs)"
        using True by simp
      then show ?thesis by blast
    next
      case False
      then have "x # xs = replicate 0 (CHR ''/'') @ dropWhile (\<lambda>c. c = CHR ''/'') (x # xs)" by simp
      then show ?thesis by blast
    qed
  qed
  then obtain k where "rev rdir = replicate k (CHR ''/'') @ dropWhile (\<lambda>c. c = CHR ''/'') (rev rdir)"
    by blast
  then have "rev (rev rdir) = rev (replicate k (CHR ''/'') @ dropWhile (\<lambda>c. c = CHR ''/'') (rev rdir))"
    by simp
  then have "rdir = rstrip_slash rdir @ replicate k (CHR ''/'')"
    by (simp add: rstrip_slash_def)
  then show ?thesis by blast
qed

fun ev_path :: "'p event \<Rightarrow> 'p" where
  "ev_path (Listed p r) = p"
| "ev_path (IsEmpty p r) = p"
| "ev_path (Unlink p r) = p"
| "ev_path (Rmdir p r) = p"

text \<open>
  \<open>skipped\<close>: the paths of the child directories whose name matches \<open>exclude_folders\<close>,
  in every directory that the walk lists. \<open>misread\<close>: those of them that the listing
  reported as files (an MLSD reply without the \<open>type\<close> fact, or the NLST fallback with
  \<open>cwd\<close> into the directory refused).
\<close>

fun skipped :: "ftp_client \<Rightarrow> platform \<Rightarrow> string list \<Rightarrow> string \<Rightarrow> node \<Rightarrow> string list"
  and skipped_in :: "ftp_client \<Rightarrow> platform \<Rightarrow> string list \<Rightarrow> string \<Rightarrow> answer \<Rightarrow> entries \<Rightarrow> string list" where
  "skipped cli os exd rdir (File l) = []"
| "skipped cli os exd rdir (Dir r l cs) = (if r then skipped_in cli os exd rdir (cli rdir) cs else [])"
| "skipped_in cli os exd rdir a [] = []"
| "skipped_in cli os exd rdir a ((n, c) # cs) =
     (if is_Dir c \<and> matches_any os n exd then [child_path rdir n]
      else if seen_as_dir a c then skipped cli os exd (child_path rdir n) c
      else []) @ skipped_in cli os exd rdir a cs"

fun misread :: "ftp_client \<Rightarrow> platform \<Rightarrow> string list \<Rightarrow> string \<Rightarrow> node \<Rightarrow> string list"
  and misread_in :: "ftp_client \<Rightarrow> platform \<Rightarrow> string list \<Rightarrow> string \<Rightarrow> answer \<Rightarrow> entries \<Rightarrow> string list" where
  "misread cli os exd rdir (File l) = []"
| "misread cli os exd rdir (Dir r l cs) = (if r then misread_in cli os exd rdir (cli rdir) cs else [])"
| "misread_in cli os exd rdir a [] = []"
| "misread_in cli os exd rdir a ((n, c) # cs) =
     (if is_Dir c \<and> matches_any os n exd then
        (if a \<noteq> Neither \<and> \<not> seen_as_dir a c then [child_path rdir n] else [])
      else if seen_as_dir a c then misread cli os exd (child_path rdir n) c
      else []) @ misread_in cli os exd rdir a cs"

fun plain_names :: "node \<Rightarrow> bool" and plain_names_in :: "entries \<Rightarrow> bool" where
  "plain_names (File l) = True"
| "plain_names (Dir r l cs) = plain_names_in cs"
| "plain_names_in [] = True"
| "plain_names_in ((n, c) # cs) = (plain_name n \<and> plain_names c \<and> plain_names_in cs)"

text \<open>
  Positions relative to the directory being walked, as lists of names. \<open>touched\<close>: where
  the walk issues calls; the flag marks a directory that the listing reported as a
  file. \<open>skipped_at\<close>: the positions of \<open>skipped\<close>; the flag marks those of \<open>misread\<close>.
\<close>

fun touched :: "ftp_client \<Rightarrow> platform \<Rightarrow> string list \<Rightarrow> string \<Rightarrow> node \<Rightarrow> (string list \<times> bool) list"
  and touched_in :: "ftp_client \<Rightarrow> platform \<Rightarrow> string list \<Rightarrow> string \<Rightarrow> answer \<Rightarrow> entries \<Rightarrow> (string list \<times> bool) list" where
  "touched cli os exd rdir (File l) = [([], False)]"
| "touched cli os exd rdir (Dir r l cs) =
     ([], False) # (if r then touched_in cli os exd rdir (cli rdir) cs else [])"
| "touched_in cli os exd rdir a [] = []"
| "touched_in cli os exd rdir a ((n, c) # cs) =
     (if seen_as_dir a c then
        (if matches_any os n exd then []
         else map (\<lambda>pb. (n # fst pb, snd pb)) (touched cli os exd (child_path rdir n) c))
      else if a = Neither then [] else [([n], is_Dir c)]) @ touched_in cli os exd rdir a cs"

fun skipped_at :: "ftp_client \<Rightarrow> platform \<Rightarrow> string list \<Rightarrow> string \<Rightarrow> node \<Rightarrow> (string list \<times> bool) list"
  and skipped_at_in :: "ftp_client \<Rightarrow> platform \<Rightarrow> string list \<Rightarrow> string \<Rightarrow> answer \<Rightarrow> entries \<Rightarrow> (string list \<times> bool) list" where
  "skipped_at cli os exd rdir (File l) = []"
| "skipped_at cli os exd rdir (Dir r l cs) =
     (if r then skipped_at_in cli os exd rdir (cli rdir) cs else [])"
| "skipped_at_in cli os exd rdir a [] = []"
| "skipped_at_in cli os exd rdir a ((n, c) # cs) =
     (if is_Dir c \<and> matches_any os n exd then [([n], a \<noteq> Neither \<and> \<not> seen_as_dir a c)]
      else if seen_as_dir a c then
        map (\<lambda>pb. (n # fst pb, snd pb)) (skipped_at cli os exd (child_path rdir n) c)
      else []) @ skipped_at_in cli os exd rdir a cs"

lemma descend_Cons: "descend rdir (n # ns) = descend (child_path rdir n) ns"
  by (simp add: descend_def)

lemma descend_Nil [simp]: "descend rdir [] = rdir"
  by (simp add: descend_def)

lemma seen_as_dir_is_Dir: "seen_as_dir a c \<Longrightarrow> is_Dir c"
  by (cases a; cases c) (simp_all add: cwd_ok_def)

lemma skipped_descend:
  "skipped cli os exd rdir t = map (\<lambda>pb. descend rdir (fst pb)) (skipped_at cli os exd rdir t)"
  and skipped_in_descend:
  "skipped_in cli os exd rdir a cs =
     map (\<lambda>pb. descend rdir (fst pb)) (skipped_at_in cli os exd rdir a cs)"
proof (induction t and cs arbitrary: rdir and rdir a rule: node_entries_induct)
  case (File l)
  show ?case by simp
next
  case (Dir r l cs)
  show ?case using Dir [of rdir "cli rdir"] by simp
next
  case Nil
  show ?case by simp
next
  case (Cons n c cs)
  show ?case
    using Cons(1) [of "child_path rdir n"] Cons(2) [of rdir a]
    by (simp add: descend_Cons comp_def)
qed

lemma misread_descend:
  "misread cli os exd rdir t =
     map (\<lambda>pb. descend rdir (fst pb)) (filter snd (skipped_at cli os exd rdir t))"
  and misread_in_descend:
  "misread_in cli os exd rdir a cs =
     map (\<lambda>pb. descend rdir (fst pb)) (filter snd (skipped_at_in cli os exd rdir a cs))"
proof (induction t and cs arbitrary: rdir and rdir a rule: node_entries_induct)
  case (File l)
  show ?case by simp
next
  case (Dir r l cs)
  show ?case using Dir [of rdir "cli rdir"] by simp
next
  case Nil
  show ?case by simp
next
  case (Cons n c cs)
  show ?case
    using Cons(1) [of "child_path rdir n"] Cons(2) [of rdir a]
    by (simp add: descend_Cons comp_def filter_map)
qed

text \<open>
  \<open>located\<close>: every call of the outcome is issued at one of the given positions, and at
  a flagged position it is a file deletion that raised.
\<close>

definition located :: "string \<Rightarrow> (string list \<times> bool) list \<Rightarrow> string outcome \<Rightarrow> bool" where
  "located rdir ps out \<longleftrightarrow>
     (\<forall>e\<in>set (trace out). \<exists>pb\<in>set ps. ev_path e = descend rdir (fst pb) \<and> (snd pb \<longrightarrow> unlink_failed e))"

lemma located_nothing [simp]: "located rdir ps nothing"
  by (simp add: located_def)

lemma located_seq:
  "located rdir ps a \<Longrightarrow> located rdir ps b \<Longrightarrow> located rdir ps (seq a b)"
  by (auto simp: located_def)

lemma located_mono:
  "located rdir ps out \<Longrightarrow> set ps \<subseteq> set qs \<Longrightarrow> located rdir qs out"
  unfolding located_def by (meson subsetD)

lemma located_child:
  "located (child_path rdir n) ps out \<Longrightarrow>
   located rdir (map (\<lambda>pb. (n # fst pb, snd pb)) ps) out"
  unfolding located_def by (fastforce simp: descend_Cons)

definition dirlike :: "entries \<Rightarrow> string \<Rightarrow> bool" where
  "dirlike cs n = (case map_of cs n of None \<Rightarrow> False | Some c \<Rightarrow> is_Dir c)"

lemma map_of_remove_entry: "n \<noteq> m \<Longrightarrow> map_of (remove_entry m cs) n = map_of cs n"
  by (induction cs) (auto simp: remove_entry_def)

lemma dirlike_ftp_delete_file:
  "dirlike cs n \<Longrightarrow> dirlike (fst (ftp_delete_file os exf dry rdir item cs)) n"
proof (cases item)
  case (Pair nm isd)
  assume d: "dirlike cs n"
  show ?thesis
  proof (cases "nm = n")
    case True
    with d have "fst (cli_delete_file nm cs) \<noteq> None \<and> snd (cli_delete_file nm cs) = cs"
      by (auto simp: cli_delete_file_def dirlike_def split: option.splits node.splits)
    then have "fst (ftp_delete_file os exf dry rdir item cs) = cs"
      by (auto simp: Pair ftp_delete_file_def Let_def split: prod.splits option.splits)
    with d show ?thesis by simp
  next
    case False
    have "snd (cli_delete_file nm cs) = cs \<or> snd (cli_delete_file nm cs) = remove_entry nm cs"
      by (auto simp: cli_delete_file_def split: option.splits node.splits)
    then have "fst (ftp_delete_file os exf dry rdir item cs) = cs \<or>
               fst (ftp_delete_file os exf dry rdir item cs) = remove_entry nm cs"
      by (auto simp: Pair ftp_delete_file_def Let_def split: prod.splits option.splits)
    then show ?thesis using d False by (auto simp: dirlike_def map_of_remove_entry)
  qed
qed

lemma located_ftp_delete_file:
  "(D (fst item) \<longrightarrow> dirlike cs (fst item)) \<Longrightarrow>
   located rdir (if snd item then [] else [([fst item], D (fst item))])
     (snd (ftp_delete_file os exf dry rdir item cs))"
proof (cases item)
  case (Pair nm isd)
  assume inv: "D (fst item) \<longrightarrow> dirlike cs (fst item)"
  have fails: "D nm \<Longrightarrow> fst (cli_delete_file nm cs) \<noteq> None"
    using inv by (auto simp: Pair cli_delete_file_def dirlike_def split: option.splits node.splits)
  show ?thesis
    using fails
    by (auto simp: Pair ftp_delete_file_def located_def descend_def Let_def
             split: prod.splits option.splits)
qed

lemma located_ftp_delete_files:
  "\<forall>i\<in>set items. D (fst i) \<longrightarrow> dirlike cs (fst i) \<Longrightarrow>
   located rdir (map (\<lambda>i. ([fst i], D (fst i))) (filter (\<lambda>i. \<not> snd i) items))
     (snd (ftp_delete_files os exf dry rdir items cs))"
proof (induction items arbitrary: cs)
  case Nil
  show ?case by simp
next
  case (Cons item items)
  let ?ps = "map (\<lambda>i. ([fst i], D (fst i))) (filter (\<lambda>i. \<not> snd i) (item # items))"
  let ?cs1 = "fst (ftp_delete_file os exf dry rdir item cs)"
  have "located rdir (if snd item then [] else [([fst item], D (fst item))])
          (snd (ftp_delete_file os exf dry rdir item cs))"
    using Cons.prems by (intro located_ftp_delete_file) simp
  then have a: "located rdir ?ps (snd (ftp_delete_file os exf dry rdir item cs))"
    by (rule located_mono) auto
  have inv: "\<forall>i\<in>set items. D (fst i) \<longrightarrow> dirlike ?cs1 (fst i)"
    using Cons.prems dirlike_ftp_delete_file by simp
  have "located rdir (map (\<lambda>i. ([fst i], D (fst i))) (filter (\<lambda>i. \<not> snd i) items))
          (snd (ftp_delete_files os exf dry rdir items ?cs1))"
    using Cons.IH [OF inv] .
  then have b: "located rdir ?ps (snd (ftp_delete_files os exf dry rdir items ?cs1))"
    by (rule located_mono) auto
  show ?case using a b by (simp add: split_def Let_def located_seq del: filter.simps)
qed

lemma reported_mem:
  "(n, b) \<in> set (reported a cs) \<longleftrightarrow> a \<noteq> Neither \<and> (\<exists>c. (n, c) \<in> set cs \<and> b = seen_as_dir a c)"
  by (cases a) (force simp: image_iff)+

lemma touched_in_file:
  "(n, c) \<in> set cs \<Longrightarrow> \<not> seen_as_dir a c \<Longrightarrow> a \<noteq> Neither \<Longrightarrow>
   ([n], is_Dir c) \<in> set (touched_in cli os exd rdir a cs)"
  by (induction cs) auto

lemma dirlike_entry:
  "distinct (map fst cs) \<Longrightarrow> (n, c) \<in> set cs \<Longrightarrow> dirlike cs n = is_Dir c"
  by (simp add: dirlike_def)

lemma touched_in_files:
  assumes "distinct (map fst cs)"
  shows "set (map (\<lambda>i. ([fst i], dirlike cs (fst i))) (filter (\<lambda>i. \<not> snd i) (reported a cs)))
           \<subseteq> set (touched_in cli os exd rdir a cs)"
proof
  fix p
  assume "p \<in> set (map (\<lambda>i. ([fst i], dirlike cs (fst i))) (filter (\<lambda>i. \<not> snd i) (reported a cs)))"
  then obtain n where n: "(n, False) \<in> set (reported a cs)" and p: "p = ([n], dirlike cs n)"
    by auto
  from n obtain c where c: "a \<noteq> Neither" "(n, c) \<in> set cs" "\<not> seen_as_dir a c"
    unfolding reported_mem by blast
  have "dirlike cs n = is_Dir c" using assms c(2) by (rule dirlike_entry)
  with p c show "p \<in> set (touched_in cli os exd rdir a cs)"
    by (simp add: touched_in_file)
qed

lemma walk_items_keeps:
  "distinct (map fst cs) \<Longrightarrow> (n, c) \<in> set cs \<Longrightarrow>
   \<not> (seen_as_dir a c \<and> \<not> matches_any os n exd) \<Longrightarrow>
   map_of (fst (walk_items os cli exf exd dry rf rdir a cs)) n = Some c"
proof (induction cs)
  case Nil
  then show ?case by simp
next
  case (Cons e cs)
  obtain m c' where e: "e = (m, c')" by (cases e)
  show ?case
  proof (cases "m = n")
    case True
    with Cons.prems e have "c' = c" by (auto simp: image_iff)
    with True e Cons.prems(3) show ?thesis by (auto simp: split_def Let_def)
  next
    case False
    with Cons.prems e have "(n, c) \<in> set cs" "distinct (map fst cs)" by auto
    then have "map_of (fst (walk_items os cli exf exd dry rf rdir a cs)) n = Some c"
      using Cons.IH Cons.prems(3) by blast
    with False e show ?thesis by (auto simp: split_def Let_def split: option.splits)
  qed
qed

lemma located_remove_if_empty:
  "located rdir [([], False)] (snd (remove_if_empty cli dry rf rdir t))"
  by (simp add: remove_if_empty_def located_def split: sum.splits option.splits)

lemma located_walk_dir:
  "distinct_names t \<Longrightarrow>
   located rdir (touched cli os exd rdir t) (snd (walk_dir os cli exf exd dry rf rdir t))"
  and located_walk_items:
  "distinct (map fst cs) \<Longrightarrow> distinct_names_in cs \<Longrightarrow>
   located rdir (touched_in cli os exd rdir a cs) (snd (walk_items os cli exf exd dry rf rdir a cs))"
proof (induction t and cs arbitrary: rdir and rdir a rule: node_entries_induct)
  case (File l)
  show ?case by (simp add: list_dir_def list_failed_def located_def)
next
  case (Dir r l cs)
  show ?case
  proof (cases r)
    case False
    then show ?thesis by (simp add: list_dir_def list_failed_def located_def)
  next
    case True
    let ?a = "cli rdir"
    let ?ps = "touched cli os exd rdir (Dir r l cs)"
    let ?cs1 = "fst (walk_items os cli exf exd dry rf rdir ?a cs)"
    from Dir.prems have dis: "distinct (map fst cs)" and dn: "distinct_names_in cs" by simp_all
    have h: "located rdir ?ps (nothing\<lparr>trace := [Listed rdir x]\<rparr>)" for x
      by (simp add: located_def)
    have i: "located rdir ?ps (snd (walk_items os cli exf exd dry rf rdir ?a cs))"
      using Dir.IH [of rdir ?a, OF dis dn] True by (auto intro: located_mono)
    have f: "located rdir ?ps (snd (ftp_delete_files os exf dry rdir (reported ?a cs) ?cs1))"
    proof (rule located_mono [OF located_ftp_delete_files [where D = "\<lambda>n. dirlike cs n \<and> (n, False) \<in> set (reported ?a cs)"]])
      show "\<forall>i\<in>set (reported ?a cs).
              dirlike cs (fst i) \<and> (fst i, False) \<in> set (reported ?a cs) \<longrightarrow> dirlike ?cs1 (fst i)"
      proof (intro ballI impI)
        fix i assume "i \<in> set (reported ?a cs)"
          and d: "dirlike cs (fst i) \<and> (fst i, False) \<in> set (reported ?a cs)"
        then obtain c where c: "(fst i, c) \<in> set cs" "\<not> seen_as_dir ?a c"
          unfolding reported_mem by blast
        have "is_Dir c" using dirlike_entry [OF dis c(1)] d by simp
        moreover have "map_of ?cs1 (fst i) = Some c"
          using walk_items_keeps [OF dis c(1)] c(2) by blast
        ultimately show "dirlike ?cs1 (fst i)" by (simp add: dirlike_def)
      qed
      show "set (map (\<lambda>i. ([fst i], dirlike cs (fst i) \<and> (fst i, False) \<in> set (reported ?a cs)))
                  (filter (\<lambda>i. \<not> snd i) (reported ?a cs))) \<subseteq> set ?ps"
      proof
        fix p
        assume "p \<in> set (map (\<lambda>i. ([fst i], dirlike cs (fst i) \<and> (fst i, False) \<in> set (reported ?a cs)))
                  (filter (\<lambda>i. \<not> snd i) (reported ?a cs)))"
        then obtain n where n: "(n, False) \<in> set (reported ?a cs)" and p: "p = ([n], dirlike cs n)"
          by auto
        then have "p \<in> set (map (\<lambda>i. ([fst i], dirlike cs (fst i)))
                     (filter (\<lambda>i. \<not> snd i) (reported ?a cs)))"
          by force
        then show "p \<in> set ?ps" using touched_in_files [OF dis, of ?a cli os exd rdir] True by auto
      qed
    qed
    have e: "located rdir ?ps (snd (remove_if_empty cli dry rf rdir t'))" for t'
      using located_remove_if_empty [of rdir cli dry rf t'] by (auto intro: located_mono)
    show ?thesis
      using True h i f e
      by (simp add: list_dir_def split_def Let_def located_seq del: touched.simps)
  qed
next
  case Nil
  show ?case by simp
next
  case (Cons n c cs)
  from Cons.prems have dis: "distinct (map fst cs)" and dc: "distinct_names c"
    and dcs: "distinct_names_in cs"
    by simp_all
  have b: "located rdir (touched_in cli os exd rdir a ((n, c) # cs))
             (snd (walk_items os cli exf exd dry rf rdir a cs))"
    using Cons.IH(2) [of rdir a, OF dis dcs] by (auto intro: located_mono)
  show ?case
  proof (cases "seen_as_dir a c \<and> \<not> matches_any os n exd")
    case True
    have a: "located rdir (touched_in cli os exd rdir a ((n, c) # cs))
               (snd (walk_dir os cli exf exd dry rf (child_path rdir n) c))"
      using located_child [OF Cons.IH(1) [of "child_path rdir n", OF dc]] True
      by (auto intro: located_mono)
    show ?thesis using True a b by (simp add: split_def Let_def located_seq del: touched_in.simps)
  next
    case False
    show ?thesis using False b by (auto simp: split_def Let_def simp del: touched_in.simps)
  qed
qed

lemma touched_in_head:
  "pb \<in> set (touched_in cli os exd rdir a cs) \<Longrightarrow> fst pb \<noteq> [] \<and> hd (fst pb) \<in> fst ` set cs"
  by (induction cs) (auto split: if_splits)

lemma skipped_at_in_head:
  "pb \<in> set (skipped_at_in cli os exd rdir a cs) \<Longrightarrow> fst pb \<noteq> [] \<and> hd (fst pb) \<in> fst ` set cs"
  by (induction cs) (auto split: if_splits)

lemma skipped_at_nonempty: "pb \<in> set (skipped_at cli os exd rdir t) \<Longrightarrow> fst pb \<noteq> []"
  by (cases t) (auto dest: skipped_at_in_head split: if_splits)

lemma touched_plain:
  "plain_names t \<Longrightarrow> \<forall>pb\<in>set (touched cli os exd rdir t). \<forall>n\<in>set (fst pb). plain_name n"
  and touched_in_plain:
  "plain_names_in cs \<Longrightarrow>
   \<forall>pb\<in>set (touched_in cli os exd rdir a cs). \<forall>n\<in>set (fst pb). plain_name n"
proof (induction t and cs arbitrary: rdir and rdir a rule: node_entries_induct)
  case (File l)
  show ?case by simp
next
  case (Dir r l cs)
  then show ?case by auto
next
  case Nil
  show ?case by simp
next
  case (Cons n c cs)
  then show ?case by auto
qed

lemma skipped_at_plain:
  "plain_names t \<Longrightarrow> \<forall>pb\<in>set (skipped_at cli os exd rdir t). \<forall>n\<in>set (fst pb). plain_name n"
  and skipped_at_in_plain:
  "plain_names_in cs \<Longrightarrow>
   \<forall>pb\<in>set (skipped_at_in cli os exd rdir a cs). \<forall>n\<in>set (fst pb). plain_name n"
proof (induction t and cs arbitrary: rdir and rdir a rule: node_entries_induct)
  case (File l)
  show ?case by simp
next
  case (Dir r l cs)
  then show ?case by auto
next
  case Nil
  show ?case by simp
next
  case (Cons n c cs)
  then show ?case by auto
qed

text \<open>
  No call is issued strictly below a skipped directory; a call on the directory itself
  is at a flagged position, and the directory is then one of the misread ones.
\<close>

lemma untouched:
  "distinct_names t \<Longrightarrow> (d, m) \<in> set (skipped_at cli os exd rdir t) \<Longrightarrow>
   (p, b) \<in> set (touched cli os exd rdir t) \<Longrightarrow> p = d @ qs \<Longrightarrow> qs = [] \<and> b \<and> m"
  and untouched_in:
  "distinct (map fst cs) \<Longrightarrow> distinct_names_in cs \<Longrightarrow>
   (d, m) \<in> set (skipped_at_in cli os exd rdir a cs) \<Longrightarrow>
   (p, b) \<in> set (touched_in cli os exd rdir a cs) \<Longrightarrow> p = d @ qs \<Longrightarrow> qs = [] \<and> b \<and> m"
proof (induction t and cs arbitrary: rdir d m p b qs and rdir a d m p b qs rule: node_entries_induct)
  case (File l)
  then show ?case by simp
next
  case (Dir r l cs)
  show ?case
  proof (cases r)
    case False
    with Dir.prems show ?thesis by simp
  next
    case True
    with Dir.prems have d: "(d, m) \<in> set (skipped_at_in cli os exd rdir (cli rdir) cs)" by simp
    then have dn: "d \<noteq> []" using skipped_at_in_head by fastforce
    show ?thesis
    proof (cases "p = []")
      case True
      with dn Dir.prems show ?thesis by simp
    next
      case False
      have "(p, b) \<in> set (touched cli os exd rdir (Dir r l cs))" using Dir.prems(3) .
      with False \<open>r\<close> have "(p, b) \<in> set (touched_in cli os exd rdir (cli rdir) cs)" by simp
      then show ?thesis using Dir.IH [OF _ _ d, of p b qs] Dir.prems by simp
    qed
  qed
next
  case Nil
  then show ?case by simp
next
  case (Cons n c cs)
  from Cons.prems have fresh: "n \<notin> fst ` set cs" and dis: "distinct (map fst cs)"
    and dc: "distinct_names c" and dcs: "distinct_names_in cs"
    by simp_all
  let ?dh = "if is_Dir c \<and> matches_any os n exd then [([n], a \<noteq> Neither \<and> \<not> seen_as_dir a c)]
             else if seen_as_dir a c then
               map (\<lambda>pb. (n # fst pb, snd pb)) (skipped_at cli os exd (child_path rdir n) c)
             else []"
  let ?ph = "if seen_as_dir a c then
               (if matches_any os n exd then []
                else map (\<lambda>pb. (n # fst pb, snd pb)) (touched cli os exd (child_path rdir n) c))
             else if a = Neither then [] else [([n], is_Dir c)]"
  from Cons.prems have d: "(d, m) \<in> set ?dh \<or> (d, m) \<in> set (skipped_at_in cli os exd rdir a cs)"
    by simp
  from Cons.prems have p: "(p, b) \<in> set ?ph \<or> (p, b) \<in> set (touched_in cli os exd rdir a cs)"
    by simp
  have pq: "p = d @ qs" using Cons.prems by simp
  have dh_head: "d \<noteq> [] \<and> hd d = n" if "(d, m) \<in> set ?dh"
    using that by (auto split: if_splits)
  have ph_head: "p \<noteq> [] \<and> hd p = n" if "(p, b) \<in> set ?ph"
    using that by (auto split: if_splits)
  consider (hh) "(d, m) \<in> set ?dh" "(p, b) \<in> set ?ph"
    | (ht) "(d, m) \<in> set ?dh" "(p, b) \<in> set (touched_in cli os exd rdir a cs)"
    | (th) "(d, m) \<in> set (skipped_at_in cli os exd rdir a cs)" "(p, b) \<in> set ?ph"
    | (tt) "(d, m) \<in> set (skipped_at_in cli os exd rdir a cs)"
           "(p, b) \<in> set (touched_in cli os exd rdir a cs)"
    using d p by blast
  then show ?case
  proof cases
    case hh
    show ?thesis
    proof (cases "is_Dir c \<and> matches_any os n exd")
      case True
      with hh(1) have dm: "d = [n]" "m = (a \<noteq> Neither \<and> \<not> seen_as_dir a c)" by simp_all
      from True hh(2) have ns: "\<not> seen_as_dir a c" and an: "a \<noteq> Neither" and pb: "p = [n]" "b = is_Dir c"
        by (auto split: if_splits)
      with dm pq True show ?thesis by simp
    next
      case False
      with hh(1) have s: "seen_as_dir a c"
        and "(d, m) \<in> set (map (\<lambda>pb. (n # fst pb, snd pb)) (skipped_at cli os exd (child_path rdir n) c))"
        by (auto split: if_splits)
      then obtain d' where d': "d = n # d'" "(d', m) \<in> set (skipped_at cli os exd (child_path rdir n) c)"
        by auto
      from s False have "\<not> matches_any os n exd" using seen_as_dir_is_Dir by blast
      with s hh(2) obtain p' where p': "p = n # p'" "(p', b) \<in> set (touched cli os exd (child_path rdir n) c)"
        by auto
      from pq d' p' have "p' = d' @ qs" by simp
      then show ?thesis using Cons.IH(1) [OF dc d'(2) p'(2)] by simp
    qed
  next
    case ht
    then have "hd d = n" "d \<noteq> []" using dh_head by simp_all
    moreover have "hd p \<in> fst ` set cs" using ht(2) touched_in_head by fastforce
    ultimately have False using pq fresh by (cases d) auto
    then show ?thesis ..
  next
    case th
    then have "hd p = n" using ph_head by simp
    moreover have "d \<noteq> []" "hd d \<in> fst ` set cs" using th(1) skipped_at_in_head by fastforce+
    ultimately have False using pq fresh by (cases d) auto
    then show ?thesis ..
  next
    case tt
    then show ?thesis using Cons.IH(2) [OF dis dcs tt(1) tt(2) pq] by simp
  qed
qed

definition under :: "string \<Rightarrow> string \<Rightarrow> bool" where
  "under d p \<longleftrightarrow> take (Suc (length d)) p = d @ ''/''"

lemma under_iff: "under d p \<longleftrightarrow> (\<exists>rest. p = d @ ''/'' @ rest)"
proof
  assume "under d p"
  then have "p = (d @ ''/'') @ drop (Suc (length d)) p"
    unfolding under_def by (metis append_take_drop_id)
  then show "\<exists>rest. p = d @ ''/'' @ rest" by auto
next
  assume "\<exists>rest. p = d @ ''/'' @ rest"
  then show "under d p" by (auto simp: under_def)
qed

lemma slashes_not_render:
  assumes "\<forall>n\<in>set ds. plain_name n" "ds \<noteq> []"
  shows "replicate k (CHR ''/'') \<noteq> render ds @ x"
proof
  assume eq: "replicate k (CHR ''/'') = render ds @ x"
  obtain n ns where ds: "ds = n # ns" using assms(2) by (cases ds) auto
  then have pn: "plain_name n" using assms(1) by simp
  then obtain c cs where n: "n = c # cs" "c \<noteq> CHR ''/''"
    by (cases n) (auto simp: plain_name_def)
  have "c \<in> set (render ds @ x)" using ds n by simp
  then have "c \<in> set (replicate k (CHR ''/''))" using eq by simp
  then show False using n by auto
qed

lemma misread_mlsd:
  "\<forall>rdir. cli rdir = Mlsd \<Longrightarrow> misread cli os exd rdir t = []"
  and misread_in_mlsd:
  "\<forall>rdir. cli rdir = Mlsd \<Longrightarrow> misread_in cli os exd rdir Mlsd cs = []"
proof (induction t and cs arbitrary: rdir and rdir rule: node_entries_induct)
  case (File l)
  show ?case by simp
next
  case (Dir r l cs)
  then show ?case by simp
next
  case Nil
  show ?case by simp
next
  case (Cons n c cs)
  then show ?case by simp
qed

text \<open>
  C4: during remote cleanup of a tree whose entry names are plain and distinct within
  each directory, for every child directory whose name matches an \<open>exclude_folders\<close>
  pattern, in every directory that the walk lists: no call at all (no listing, no
  emptiness test, no deletion, no removal) is issued on a path strictly under that
  directory; no call is issued on the directory itself when the listing reported it as
  a directory; and when the listing reported it as a file (an MLSD reply without the
  \<open>type\<close> fact, or the NLST fallback with \<open>cwd\<close> into it refused), the only call on it is
  a file deletion, which raises. So the directory is never entered and never removed.
\<close>

theorem excluded_folders_untouched:
  assumes "plain_names t" and "distinct_names t"
    and "d \<in> set (skipped cli os exd (remote_root remote_folder) t)"
    and "e \<in> set (trace (snd (ftp_cleanup_folder os cli remote_folder exf exd dry (Some t))))"
  shows "\<not> under d (ev_path e) \<and>
         (d \<notin> set (misread cli os exd (remote_root remote_folder) t) \<longrightarrow> ev_path e \<noteq> d) \<and>
         (ev_path e = d \<longrightarrow> unlink_failed e)"
proof -
  let ?root = "remote_root remote_folder"
  let ?B = "rstrip_slash ?root"
  have out: "snd (ftp_cleanup_folder os cli remote_folder exf exd dry (Some t)) =
             snd (walk_dir os cli exf exd dry ?root ?root t)"
    by (simp add: ftp_cleanup_folder_def Let_def del: walk_dir.simps)
  have "\<exists>pb\<in>set (touched cli os exd ?root t).
          ev_path e = descend ?root (fst pb) \<and> (snd pb \<longrightarrow> unlink_failed e)"
    using located_walk_dir [OF assms(2), of ?root cli os exd exf dry ?root] assms(4)
    unfolding out located_def by blast
  then obtain p b where p: "(p, b) \<in> set (touched cli os exd ?root t)"
    and ep: "ev_path e = descend ?root p" and eb: "b \<longrightarrow> unlink_failed e"
    by auto
  obtain ds m where ds: "(ds, m) \<in> set (skipped_at cli os exd ?root t)" and dd: "d = descend ?root ds"
    using assms(3) unfolding skipped_descend by auto
  have dsn: "ds \<noteq> []" using skipped_at_nonempty [OF ds] by simp
  have dsp: "\<forall>n\<in>set ds. plain_name n" using skipped_at_plain [OF assms(1)] ds by fastforce
  have pp: "\<forall>n\<in>set p. plain_name n" using touched_plain [OF assms(1)] p by fastforce
  have no: "qs = [] \<and> b \<and> m" if "p = ds @ qs" for qs
    using untouched [OF assms(2) ds p that] .
  have mis: "d \<in> set (misread cli os exd ?root t)" if "m"
    using ds dd that unfolding misread_descend by force
  have d: "d = ?B @ render ds" using dd descend_render [OF dsp dsn] by simp
  show ?thesis
  proof (cases "p = []")
    case True
    obtain k where k: "?root = ?B @ replicate k (CHR ''/'')"
      using rstrip_slash_decomp [of ?root] by blast
    have e: "ev_path e = ?B @ replicate k (CHR ''/'')" using ep True k by simp
    have "ev_path e \<noteq> d"
      using e d slashes_not_render [OF dsp dsn, of k "[]"] by simp
    moreover have "\<not> under d (ev_path e)"
    proof
      assume "under d (ev_path e)"
      then obtain rest where "ev_path e = d @ ''/'' @ rest" using under_iff by blast
      then have "replicate k (CHR ''/'') = render ds @ (''/'' @ rest)" using e d by simp
      then show False using slashes_not_render [OF dsp dsn] by blast
    qed
    ultimately show ?thesis by simp
  next
    case False
    have e: "ev_path e = ?B @ render p" using ep descend_render [OF pp False] by simp
    have same: "b \<and> m" if "ev_path e = d"
    proof -
      from that have "render p = render ds" using e d by simp
      then have "p = ds" using render_inj [OF pp dsp] by simp
      then show ?thesis using no [of "[]"] by simp
    qed
    have "\<not> under d (ev_path e)"
    proof
      assume "under d (ev_path e)"
      then obtain rest where r: "ev_path e = d @ ''/'' @ rest" using under_iff by blast
      then have rr: "render p = render ds @ ''/'' @ rest" using e d by simp
      then obtain qs where "p = ds @ qs" using render_under [OF dsp pp] by blast
      then have "p = ds" using no by simp
      with rr show False by simp
    qed
    then show ?thesis using same eb mis by blast
  qed
qed

definition demo_tree2 :: node where
  "demo_tree2 = Dir True False
     [(''a.json'', File False), (''b.log'', File False),
      (''config'', Dir True False [(''c.log'', File False)]),
      (''old'', Dir True False [(''d.log'', File False), (''config'', Dir True False [])]),
      (''empty'', Dir True False [])]"

text \<open>
  A server without MLSD, and a tree on it whose directory \<open>config\<close> refuses \<open>cwd\<close>: the
  NLST fallback reports \<open>config\<close> as a file.
\<close>

definition nlst_server :: ftp_client where
  "nlst_server = (\<lambda>rdir. Nlst)"

definition closed_tree :: node where
  "closed_tree = Dir True False
     [(''b.log'', File False), (''config'', Dir False False [(''c.log'', File False)])]"

theorem excluded_folders_untouched_witness:
  "plain_names demo_tree2 \<and> distinct_names demo_tree2 \<and>
   ''/logs/old/config'' \<in> set (skipped mlsd_server Posix [''config''] (remote_root ''/logs/'') demo_tree2) \<and>
   ''/logs/old/config'' \<notin> set (misread mlsd_server Posix [''config''] (remote_root ''/logs/'') demo_tree2) \<and>
   Unlink ''/logs/old/d.log'' None
     \<in> set (trace (snd (ftp_cleanup_folder Posix mlsd_server ''/logs/'' [''*.json''] [''config''] False (Some demo_tree2)))) \<and>
   ev_path (Unlink ''/logs/old/d.log'' None :: string event) \<noteq> ''/logs/old/config'' \<and>
   \<not> under ''/logs/old/config'' (ev_path (Unlink ''/logs/old/d.log'' None :: string event)) \<and>
   plain_names closed_tree \<and> distinct_names closed_tree \<and>
   ''/logs/config'' \<in> set (skipped nlst_server Posix [''config''] (remote_root ''/logs/'') closed_tree) \<and>
   Unlink ''/logs/config'' (Some ''550 Not a regular file'')
     \<in> set (trace (snd (ftp_cleanup_folder Posix nlst_server ''/logs/'' [''*.json''] [''config''] False (Some closed_tree)))) \<and>
   ev_path (Unlink ''/logs/config'' (Some ''550 Not a regular file'') :: string event) = ''/logs/config'' \<and>
   \<not> under ''/logs/config'' (ev_path (Unlink ''/logs/config'' (Some ''550 Not a regular file'') :: string event)) \<and>
   unlink_failed (Unlink ''/logs/config'' (Some ''550 Not a regular file'') :: string event)"
proof -
  have a: "plain_names demo_tree2" by code_simp
  have b: "distinct_names demo_tree2" by code_simp
  have c: "''/logs/old/config'' \<in> set (skipped mlsd_server Posix [''config''] (remote_root ''/logs/'') demo_tree2)"
    by code_simp
  have d: "Unlink ''/logs/old/d.log'' None
     \<in> set (trace (snd (ftp_cleanup_folder Posix mlsd_server ''/logs/'' [''*.json''] [''config''] False (Some demo_tree2))))"
    by code_simp
  have m: "''/logs/old/config'' \<notin> set (misread mlsd_server Posix [''config''] (remote_root ''/logs/'') demo_tree2)"
    by code_simp
  have a': "plain_names closed_tree" by code_simp
  have b': "distinct_names closed_tree" by code_simp
  have c': "''/logs/config'' \<in> set (skipped nlst_server Posix [''config''] (remote_root ''/logs/'') closed_tree)"
    by code_simp
  have d': "Unlink ''/logs/config'' (Some ''550 Not a regular file'')
     \<in> set (trace (snd (ftp_cleanup_folder Posix nlst_server ''/logs/'' [''*.json''] [''config''] False (Some closed_tree))))"
    by code_simp
  have p': "ev_path (Unlink ''/logs/config'' (Some ''550 Not a regular file'') :: string event) = ''/logs/config''"
    by simp
  show ?thesis
    using a b c d m a' b' c' d' p'
      excluded_folders_untouched [OF a b c d] excluded_folders_untouched [OF a' b' c' d']
    by blast
qed

subsection \<open>The counters of a dry run and of a real run\<close>

fun is_rmdir :: "'p event \<Rightarrow> bool" where
  "is_rmdir (Rmdir p r) = True"
| "is_rmdir e = False"

lemma unlink_count:
  "length (concat (map unlinked es)) = length (filter unlink_done es) + length (filter unlink_failed es)"
proof (induction es)
  case Nil
  show ?case by simp
next
  case (Cons e es)
  then show ?case
  proof (cases e)
    case (Unlink p r)
    with Cons show ?thesis by (cases r) simp_all
  qed simp_all
qed

lemma rmdir_count:
  "length (filter is_rmdir es) = length (filter rmdir_done es) + length (filter rmdir_failed es)"
proof (induction es)
  case Nil
  show ?case by simp
next
  case (Cons e es)
  then show ?case
  proof (cases e)
    case (Rmdir p r)
    with Cons show ?thesis by (cases r) simp_all
  qed simp_all
qed

text \<open>Remote backend: the files a dry run counts are the deletions a real run attempts.\<close>

lemma ftp_dry_files_loop:
  "deleted_files (snd (ftp_delete_files os exf True rdir items cs)) =
   length (unlink_paths (snd (ftp_delete_files os exf False rdir items cs')))"
proof (induction items arbitrary: cs cs')
  case Nil
  show ?case by simp
next
  case (Cons item items)
  have "deleted_files (snd (ftp_delete_file os exf True rdir item cs)) =
        length (unlink_paths (snd (ftp_delete_file os exf False rdir item cs')))"
    by (cases item)
       (simp add: ftp_delete_file_def unlink_paths_def Let_def split: prod.splits option.splits)
  then show ?case using Cons by (simp add: split_def Let_def)
qed

lemma ftp_remove_if_empty_files:
  "deleted_files (snd (remove_if_empty cli dry rf rdir t)) = 0"
  "unlink_paths (snd (remove_if_empty cli dry rf rdir t)) = []"
  by (simp_all add: remove_if_empty_def unlink_paths_def split: sum.splits option.splits)

lemma ftp_dry_files:
  "deleted_files (snd (walk_dir os cli exf exd True rf rdir t)) =
   length (unlink_paths (snd (walk_dir os cli exf exd False rf rdir t)))"
  and ftp_dry_files_items:
  "deleted_files (snd (walk_items os cli exf exd True rf rdir a cs)) =
   length (unlink_paths (snd (walk_items os cli exf exd False rf rdir a cs)))"
proof (induction t and cs arbitrary: rdir and rdir a rule: node_entries_induct)
  case (File l)
  show ?case by (simp add: list_dir_def list_failed_def unlink_paths_def)
next
  case (Dir r l cs)
  show ?case
  proof (cases r)
    case False
    then show ?thesis by (simp add: list_dir_def list_failed_def unlink_paths_def)
  next
    case True
    have h: "unlink_paths (nothing\<lparr>trace := [Listed rdir x]\<rparr>) = []" for x
      by (simp add: unlink_paths_def)
    show ?thesis
      using True Dir [of rdir "cli rdir"] h
        ftp_dry_files_loop [of os exf rdir "reported (cli rdir) cs"
          "fst (walk_items os cli exf exd True rf rdir (cli rdir) cs)"
          "fst (walk_items os cli exf exd False rf rdir (cli rdir) cs)"]
      by (simp add: list_dir_def split_def Let_def ftp_remove_if_empty_files)
  qed
next
  case Nil
  show ?case by simp
next
  case (Cons n c cs)
  show ?case
    using Cons(1) [of "child_path rdir n"] Cons(2) [of rdir a]
    by (simp add: split_def Let_def)
qed

text \<open>Remote backend: a directory the dry run counts is one the real run tries to remove.\<close>

definition rmdir_attempts :: "'p outcome \<Rightarrow> nat" where
  "rmdir_attempts out = length (filter is_rmdir (trace out))"

lemma rmdir_attempts_nothing [simp]: "rmdir_attempts nothing = 0"
  by (simp add: rmdir_attempts_def)

lemma rmdir_attempts_seq [simp]: "rmdir_attempts (seq a b) = rmdir_attempts a + rmdir_attempts b"
  by (simp add: rmdir_attempts_def)

lemma ftp_delete_files_dirs:
  "deleted_dirs (snd (ftp_delete_files os exf dry rdir items cs)) = 0"
proof (induction items arbitrary: cs)
  case Nil
  show ?case by simp
next
  case (Cons item items)
  have "deleted_dirs (snd (ftp_delete_file os exf dry rdir item cs)) = 0"
    by (cases item) (simp add: ftp_delete_file_def Let_def split: prod.splits option.splits)
  then show ?case using Cons by (simp add: split_def Let_def)
qed

lemma ftp_delete_files_Nil:
  "ftp_delete_files os exf dry rdir [] cs = (cs, nothing)"
  by simp

lemma reported_Nil_iff: "reported a cs = [] \<longleftrightarrow> a = Neither \<or> cs = []"
  by (cases a) simp_all

lemma walk_items_Neither:
  "walk_items os cli exf exd dry rf rdir Neither cs = (cs, nothing)"
  by (induction cs) (auto simp: split_def)

lemma reported_walk_items:
  "reported a cs = [] \<Longrightarrow> reported a (fst (walk_items os cli exf exd dry rf rdir a cs)) = []"
  by (auto simp: reported_Nil_iff)

lemma ftp_dry_dirs:
  "deleted_dirs (snd (walk_dir os cli exf exd True rf rdir t)) \<le>
   rmdir_attempts (snd (walk_dir os cli exf exd False rf rdir t))"
  and ftp_dry_dirs_items:
  "deleted_dirs (snd (walk_items os cli exf exd True rf rdir a cs)) \<le>
   rmdir_attempts (snd (walk_items os cli exf exd False rf rdir a cs))"
proof (induction t and cs arbitrary: rdir and rdir a rule: node_entries_induct)
  case (File l)
  show ?case by (simp add: list_dir_def list_failed_def)
next
  case (Dir r l cs)
  show ?case
  proof (cases r)
    case False
    then show ?thesis by (simp add: list_dir_def list_failed_def)
  next
    case True
    note r = True
    have dryt: "fst (walk_items os cli exf exd True rf rdir (cli rdir) cs) = cs"
      using dry_walk_items by simp
    have dryf: "fst (ftp_delete_files os exf True rdir (reported (cli rdir) cs) cs) = cs"
      using dry_ftp_delete_files by simp
    let ?cs1 = "fst (walk_items os cli exf exd False rf rdir (cli rdir) cs)"
    let ?cs2 = "fst (ftp_delete_files os exf False rdir (reported (cli rdir) cs) ?cs1)"
    have last_step: "deleted_dirs (snd (remove_if_empty cli True rf rdir (Dir r l cs))) \<le>
                     rmdir_attempts (snd (remove_if_empty cli False rf rdir (Dir r l ?cs2)))"
    proof (cases "reported (cli rdir) cs = []")
      case True
      then have "reported (cli rdir) ?cs1 = []" by (rule reported_walk_items)
      with True have "reported (cli rdir) ?cs2 = []" by simp
      with True r show ?thesis
        by (simp add: remove_if_empty_def list_dir_def rmdir_attempts_def
              split: option.splits)
    next
      case False
      with r show ?thesis
        by (simp add: remove_if_empty_def list_dir_def)
    qed
    have h: "rmdir_attempts (nothing\<lparr>trace := [Listed rdir x]\<rparr>) = 0" for x
      by (simp add: rmdir_attempts_def)
    show ?thesis
      using r Dir [of rdir "cli rdir"] last_step h dryt dryf
      by (simp add: list_dir_def split_def Let_def ftp_delete_files_dirs)
  qed
next
  case Nil
  show ?case by simp
next
  case (Cons n c cs)
  show ?case
    using Cons(1) [of "child_path rdir n"] Cons(2) [of rdir a]
    by (simp add: split_def Let_def)
qed

lemma probe_remove_entry: "n \<noteq> m \<Longrightarrow> probe_empty n (remove_entry m cs) = probe_empty n cs"
  by (simp add: probe_empty_def map_of_remove_entry)

lemma probe_empty_True:
  "probe_empty dn cs = Inr True \<longleftrightarrow> (\<exists>l. map_of cs dn = Some (Dir True l []))"
  by (auto simp: probe_empty_def split: option.splits node.splits if_splits)

lemma dry_dirs_remove_dirs:
  "deleted_dirs (snd (remove_dirs os rootp exd True dirs cs)) =
     length (filter (\<lambda>dn. \<not> matches_any os dn exd \<and> probe_empty dn cs = Inr True) dirs)"
proof (induction dirs)
  case Nil
  show ?case by simp
next
  case (Cons dn dirs)
  have s: "fst (remove_dir os rootp exd True dn cs) = cs"
    using dry_remove_dir by simp
  have "deleted_dirs (snd (remove_dir os rootp exd True dn cs)) =
          (if \<not> matches_any os dn exd \<and> probe_empty dn cs = Inr True then 1 else 0)"
    by (simp add: remove_dir_def Let_def split: sum.splits bool.splits)
  then show ?case using Cons s by (simp add: split_def Let_def)
qed

lemma remove_dir_step:
  "n \<noteq> dn \<Longrightarrow> probe_empty n (fst (remove_dir os rootp exd dry dn cs)) = probe_empty n cs"
  by (auto simp: remove_dir_def rmdir_def Let_def probe_remove_entry
           split: option.splits node.splits if_splits sum.splits bool.splits)

lemma remove_dir_attempt:
  "\<not> matches_any os dn exd \<Longrightarrow> probe_empty dn cs = Inr True \<Longrightarrow>
   rmdir_attempts (snd (remove_dir os rootp exd False dn cs)) = 1"
  by (simp add: remove_dir_def rmdir_attempts_def Let_def split: prod.splits option.splits)

lemma real_dirs_remove_dirs:
  "distinct dirs \<Longrightarrow> \<forall>dn\<in>set dirs. G dn \<longrightarrow> probe_empty dn cs = Inr True \<Longrightarrow>
   length (filter (\<lambda>dn. \<not> matches_any os dn exd \<and> G dn) dirs) \<le>
   rmdir_attempts (snd (remove_dirs os rootp exd False dirs cs))"
proof (induction dirs arbitrary: cs)
  case Nil
  show ?case by simp
next
  case (Cons dn dirs)
  let ?cs1 = "fst (remove_dir os rootp exd False dn cs)"
  have inv: "\<forall>n\<in>set dirs. G n \<longrightarrow> probe_empty n ?cs1 = Inr True"
  proof (intro ballI impI)
    fix n assume n: "n \<in> set dirs" and g: "G n"
    then have "n \<noteq> dn" using Cons.prems(1) by auto
    then show "probe_empty n ?cs1 = Inr True"
      using remove_dir_step [of n dn os rootp exd False cs] Cons.prems(2) n g by simp
  qed
  have IH: "length (filter (\<lambda>dn. \<not> matches_any os dn exd \<and> G dn) dirs) \<le>
            rmdir_attempts (snd (remove_dirs os rootp exd False dirs ?cs1))"
    using Cons.IH [of ?cs1] Cons.prems(1) inv by simp
  have hd: "(if \<not> matches_any os dn exd \<and> G dn then 1 else (0::nat)) \<le>
            rmdir_attempts (snd (remove_dir os rootp exd False dn cs))"
    using remove_dir_attempt [of os dn exd cs rootp] Cons.prems(2) by simp
  show ?case using IH hd by (auto simp: split_def Let_def split: if_splits)
qed

lemma delete_file_step:
  "probe_empty n cs = Inr True \<Longrightarrow> probe_empty n (fst (delete_file os rootp exf dry fn cs)) = Inr True"
proof (cases "fn = n")
  case True
  assume "probe_empty n cs = Inr True"
  then obtain l where "map_of cs n = Some (Dir True l [])" using probe_empty_True by blast
  with True have "fst (delete_file os rootp exf dry fn cs) = cs"
    by (simp add: delete_file_def unlink_missing_ok_def Let_def)
  with \<open>probe_empty n cs = Inr True\<close> show ?thesis by simp
next
  case False
  assume p: "probe_empty n cs = Inr True"
  have "fst (delete_file os rootp exf dry fn cs) = cs \<or>
        fst (delete_file os rootp exf dry fn cs) = remove_entry fn cs"
    by (auto simp: delete_file_def unlink_missing_ok_def Let_def
             split: option.splits node.splits if_splits)
  then show ?thesis using p False probe_remove_entry [of n fn cs] by auto
qed

lemma delete_files_step:
  "probe_empty n cs = Inr True \<Longrightarrow> probe_empty n (fst (delete_files os rootp exf dry files cs)) = Inr True"
proof (induction files arbitrary: cs)
  case Nil
  then show ?case by simp
next
  case (Cons fn files)
  show ?case
    using Cons.IH [OF delete_file_step [OF Cons.prems, of os rootp exf dry fn]]
    by (simp add: split_def Let_def)
qed

lemma map_of_walked:
  "map_of cs n = Some c \<Longrightarrow>
   map_of (map (\<lambda>e. (fst e, h (fst e) (snd e))) cs) n = Some (h n c)"
  by (induction cs) auto

lemma os_walk_empty_dir:
  "fst (os_walk os exf exd dry rootp (Dir True l [])) = Dir True l []"
  by (simp add: walk_body_def)

lemma walk_subdirs_step:
  "probe_empty n cs = Inr True \<Longrightarrow> probe_empty n (fst (walk_subdirs os exf exd dry rootp cs)) = Inr True"
proof -
  assume "probe_empty n cs = Inr True"
  then obtain l where m: "map_of cs n = Some (Dir True l [])" using probe_empty_True by blast
  have "map_of (fst (walk_subdirs os exf exd dry rootp cs)) n =
        Some (if is_Dir (Dir True l []) then fst (os_walk os exf exd dry (rootp @ [n]) (Dir True l []))
              else Dir True l [])"
    unfolding walk_subdirs_map
    using map_of_walked [OF m, of "\<lambda>n c. if is_Dir c then fst (os_walk os exf exd dry (rootp @ [n]) c) else c"]
    by simp
  then have "map_of (fst (walk_subdirs os exf exd dry rootp cs)) n = Some (Dir True l [])"
    by (simp add: walk_body_def)
  then show ?thesis using probe_empty_True by blast
qed

lemma rmdir_attempts_delete_files:
  "rmdir_attempts (snd (delete_files os rootp exf dry files cs)) = 0"
proof (induction files arbitrary: cs)
  case Nil
  show ?case by simp
next
  case (Cons fn files)
  have "rmdir_attempts (snd (delete_file os rootp exf dry fn cs)) = 0"
    by (simp add: delete_file_def rmdir_attempts_def Let_def split: prod.splits option.splits)
  then show ?case using Cons by (simp add: split_def Let_def)
qed

lemma dirs_delete_files:
  "deleted_dirs (snd (delete_files os rootp exf dry files cs)) = 0"
proof (induction files arbitrary: cs)
  case Nil
  show ?case by simp
next
  case (Cons fn files)
  have "deleted_dirs (snd (delete_file os rootp exf dry fn cs)) = 0"
    by (simp add: delete_file_def Let_def split: prod.splits option.splits)
  then show ?case using Cons by (simp add: split_def Let_def)
qed

lemma local_dry_dirs:
  "distinct_names t \<Longrightarrow>
   deleted_dirs (snd (os_walk os exf exd True rootp t)) \<le>
   rmdir_attempts (snd (os_walk os exf exd False rootp t))"
  and local_dry_dirs_sub:
  "distinct_names_in cs \<Longrightarrow>
   deleted_dirs (snd (walk_subdirs os exf exd True rootp cs)) \<le>
   rmdir_attempts (snd (walk_subdirs os exf exd False rootp cs))"
proof (induction t and cs arbitrary: rootp and rootp rule: node_entries_induct)
  case (File l)
  show ?case by simp
next
  case (Dir r l cs)
  show ?case
  proof (cases r)
    case False
    then show ?thesis by simp
  next
    case True
    let ?dirs = "map fst (filter (\<lambda>e. is_Dir (snd e)) cs)"
    let ?files = "map fst (filter (\<lambda>e. is_File (snd e)) cs)"
    let ?cs1 = "fst (walk_subdirs os exf exd False rootp cs)"
    let ?cs2 = "fst (delete_files os rootp exf False ?files ?cs1)"
    have dd: "distinct ?dirs" using Dir.prems by (simp add: distinct_map_filter)
    have keep: "\<forall>dn\<in>set ?dirs. probe_empty dn cs = Inr True \<longrightarrow> probe_empty dn ?cs2 = Inr True"
      using walk_subdirs_step delete_files_step by blast
    have body: "length (filter (\<lambda>dn. \<not> matches_any os dn exd \<and> probe_empty dn cs = Inr True) ?dirs) \<le>
                rmdir_attempts (snd (remove_dirs os rootp exd False ?dirs ?cs2))"
      using real_dirs_remove_dirs [OF dd keep] .
    have sub: "deleted_dirs (snd (walk_subdirs os exf exd True rootp cs)) \<le>
               rmdir_attempts (snd (walk_subdirs os exf exd False rootp cs))"
      using Dir.IH [of rootp] Dir.prems by simp
    have dry1: "fst (walk_subdirs os exf exd True rootp cs) = cs" using dry_walk_subdirs by simp
    have dry2: "fst (delete_files os rootp exf True ?files cs) = cs" using dry_delete_files by simp
    have h: "rmdir_attempts (nothing\<lparr>trace := [Listed rootp x]\<rparr>) = 0" for x
      by (simp add: rmdir_attempts_def)
    show ?thesis
      using True body sub dry1 dry2 h
      by (simp add: split_def Let_def walk_body_def dry_dirs_remove_dirs dirs_delete_files
            rmdir_attempts_delete_files)
  qed
next
  case Nil
  show ?case by simp
next
  case (Cons n c cs)
  show ?case
    using Cons.IH(1) [of "rootp @ [n]"] Cons.IH(2) [of rootp] Cons.prems
    by (simp add: split_def Let_def)
qed

text \<open>
  \<open>test_passed\<close>: an emptiness test that found no children. In a dry run every such test
  is counted at once; in a real run every such test is followed by the removal.
\<close>

fun test_passed :: "'p event \<Rightarrow> bool" where
  "test_passed (IsEmpty p (Inr True)) = True"
| "test_passed e = False"

definition tally :: "bool \<Rightarrow> 'p outcome \<Rightarrow> bool" where
  "tally dry out \<longleftrightarrow>
     length (filter test_passed (trace out)) = (if dry then deleted_dirs out else rmdir_attempts out)"

lemma tally_nothing [simp]: "tally dry nothing"
  by (simp add: tally_def)

lemma tally_seq: "tally dry a \<Longrightarrow> tally dry b \<Longrightarrow> tally dry (seq a b)"
  by (simp add: tally_def)

lemma tally_delete_files: "tally dry (snd (delete_files os rootp exf dry files cs))"
proof (induction files arbitrary: cs)
  case Nil
  show ?case by simp
next
  case (Cons fn files)
  have "tally dry (snd (delete_file os rootp exf dry fn cs))"
    by (simp add: delete_file_def tally_def rmdir_attempts_def Let_def
             split: prod.splits option.splits)
  then show ?case using Cons by (simp add: split_def Let_def tally_seq)
qed

lemma tally_remove_dirs: "tally dry (snd (remove_dirs os rootp exd dry dirs cs))"
proof (induction dirs arbitrary: cs)
  case Nil
  show ?case by simp
next
  case (Cons dn dirs)
  have "tally dry (snd (remove_dir os rootp exd dry dn cs))"
    by (simp add: remove_dir_def tally_def rmdir_attempts_def Let_def
             split: prod.splits option.splits sum.splits bool.splits)
  then show ?case using Cons by (simp add: split_def Let_def tally_seq)
qed

lemma tally_os_walk: "tally dry (snd (os_walk os exf exd dry rootp t))"
  and tally_walk_subdirs: "tally dry (snd (walk_subdirs os exf exd dry rootp cs))"
proof (induction t and cs arbitrary: rootp and rootp rule: node_entries_induct)
  case (File l)
  show ?case by (simp add: tally_def rmdir_attempts_def)
next
  case (Dir r l cs)
  have "tally dry (nothing\<lparr>trace := [Listed rootp x]\<rparr>)" for x
    by (simp add: tally_def rmdir_attempts_def)
  then show ?case
    using Dir [of rootp]
    by (simp add: split_def Let_def walk_body_def tally_seq tally_delete_files tally_remove_dirs)
next
  case Nil
  show ?case by simp
next
  case (Cons n c cs)
  show ?case
    using Cons(1) [of "rootp @ [n]"] Cons(2) [of rootp]
    by (simp add: split_def Let_def tally_seq)
qed

lemma tally_ftp_delete_files: "tally dry (snd (ftp_delete_files os exf dry rdir items cs))"
proof (induction items arbitrary: cs)
  case Nil
  show ?case by simp
next
  case (Cons item items)
  have "tally dry (snd (ftp_delete_file os exf dry rdir item cs))"
    by (cases item)
       (simp add: ftp_delete_file_def tally_def rmdir_attempts_def Let_def
             split: prod.splits option.splits)
  then show ?case using Cons by (simp add: split_def Let_def tally_seq)
qed

lemma tally_remove_if_empty: "tally dry (snd (remove_if_empty cli dry rf rdir t))"
  by (simp add: remove_if_empty_def tally_def rmdir_attempts_def split: sum.splits option.splits)

lemma tally_walk_dir: "tally dry (snd (walk_dir os cli exf exd dry rf rdir t))"
  and tally_walk_items: "tally dry (snd (walk_items os cli exf exd dry rf rdir a cs))"
proof (induction t and cs arbitrary: rdir and rdir a rule: node_entries_induct)
  case (File l)
  show ?case by (simp add: list_dir_def list_failed_def tally_def rmdir_attempts_def)
next
  case (Dir r l cs)
  have "tally dry (nothing\<lparr>trace := [Listed rdir x]\<rparr>)" for x
    by (simp add: tally_def rmdir_attempts_def)
  moreover have "tally dry (list_failed rdir e)" for e
    by (simp add: list_failed_def tally_def rmdir_attempts_def)
  ultimately show ?case
    using Dir [of rdir "cli rdir"]
    by (simp add: list_dir_def split_def Let_def tally_seq tally_ftp_delete_files
          tally_remove_if_empty)
next
  case Nil
  show ?case by simp
next
  case (Cons n c cs)
  show ?case
    using Cons(1) [of "child_path rdir n"] Cons(2) [of rdir a]
    by (simp add: split_def Let_def tally_seq)
qed

lemma local_out_Dir:
  "snd (local_cleanup_folder os folder exf exd dry (Some (Dir r l cs))) =
   snd (os_walk os exf exd dry folder (Dir r l cs))"
  "fst (local_cleanup_folder os folder exf exd dry (Some (Dir r l cs))) =
   Some (fst (os_walk os exf exd dry folder (Dir r l cs)))"
  by (simp_all add: local_cleanup_folder_def split_def Let_def del: os_walk.simps)

lemma local_out_other:
  "fs = None \<or> (\<exists>l. fs = Some (File l)) \<Longrightarrow>
   trace (snd (local_cleanup_folder os folder exf exd dry fs)) = [] \<and>
   deleted_files (snd (local_cleanup_folder os folder exf exd dry fs)) = 0 \<and>
   deleted_dirs (snd (local_cleanup_folder os folder exf exd dry fs)) = 0"
  by (auto simp: local_cleanup_folder_def)

lemma ftp_out_Some:
  "snd (ftp_cleanup_folder os cli remote_folder exf exd dry (Some t)) =
   snd (walk_dir os cli exf exd dry (remote_root remote_folder) (remote_root remote_folder) t)"
  "fst (ftp_cleanup_folder os cli remote_folder exf exd dry (Some t)) =
   fst (walk_dir os cli exf exd dry (remote_root remote_folder) (remote_root remote_folder) t)"
  by (simp_all add: ftp_cleanup_folder_def Let_def del: walk_dir.simps)

lemma ftp_out_None:
  "snd (ftp_cleanup_folder os cli remote_folder exf exd dry None) =
   list_failed (remote_root remote_folder) ''550 Failed to change directory''"
  by (simp add: ftp_cleanup_folder_def Let_def)

lemma fs_cases:
  "fs = None \<or> (\<exists>l. fs = Some (File l)) \<or> (\<exists>r l cs. fs = Some (Dir r l cs))"
proof (cases fs)
  case None
  then show ?thesis by simp
next
  case (Some t)
  then show ?thesis by (cases t) simp_all
qed

text \<open>
  C5: the local walk does not consult \<open>exclude_folders\<close> when it descends. A real run
  issues an unlink for every file of every readable directory whose name matches no
  \<open>exclude_files\<close> pattern, also inside a directory whose name matches
  \<open>exclude_folders\<close>; a dry run counts exactly these files; no directory whose name
  matches \<open>exclude_folders\<close> is ever removed; and (names being distinct within each
  directory) after a real run every file left in a readable directory is excluded by
  name or could not be deleted.
\<close>

theorem local_walk_ignores_excluded_folders:
  "unlink_paths (snd (local_cleanup_folder os folder exf exd False (Some (Dir r l cs)))) =
     filter (\<lambda>p. \<not> matches_any os (last p) exf) (all_files folder (Dir r l cs)) \<and>
   deleted_files (snd (local_cleanup_folder os folder exf exd True (Some (Dir r l cs)))) =
     length (filter (\<lambda>p. \<not> matches_any os (last p) exf) (all_files folder (Dir r l cs))) \<and>
   (\<forall>p res. Rmdir p res \<in> set (trace (snd (local_cleanup_folder os folder exf exd dry (Some (Dir r l cs)))))
      \<longrightarrow> \<not> matches_any os (last p) exd) \<and>
   (distinct_names (Dir r l cs) \<longrightarrow>
      (\<exists>t. fst (local_cleanup_folder os folder exf exd False (Some (Dir r l cs))) = Some t \<and>
           cleaned os exf t))"
proof (intro conjI)
  show "unlink_paths (snd (local_cleanup_folder os folder exf exd False (Some (Dir r l cs)))) =
     filter (\<lambda>p. \<not> matches_any os (last p) exf) (all_files folder (Dir r l cs))"
    unfolding local_out_Dir by (rule unlink_paths_os_walk)
  show "deleted_files (snd (local_cleanup_folder os folder exf exd True (Some (Dir r l cs)))) =
     length (filter (\<lambda>p. \<not> matches_any os (last p) exf) (all_files folder (Dir r l cs)))"
    unfolding local_out_Dir by (rule dry_count_os_walk)
  show "\<forall>p res. Rmdir p res \<in> set (trace (snd (local_cleanup_folder os folder exf exd dry (Some (Dir r l cs)))))
      \<longrightarrow> \<not> matches_any os (last p) exd"
    unfolding local_out_Dir
    using keeps_excluded_os_walk [of os exd exf dry folder "Dir r l cs"]
    unfolding keeps_excluded_def by blast
  show "distinct_names (Dir r l cs) \<longrightarrow>
      (\<exists>t. fst (local_cleanup_folder os folder exf exd False (Some (Dir r l cs))) = Some t \<and>
           cleaned os exf t)"
    unfolding local_out_Dir
    using cleaned_os_walk [of "Dir r l cs" os exf exd folder] by blast
qed

text \<open>
  C7 (amended): in a real run of either backend the log is, line for line and in
  order, what \<open>local_logged\<close> (\<open>ftp_logged\<close>) gives for the calls of the run: a file
  deletion that raises is logged as one warning and not counted (\<open>deleted_files\<close> counts
  the successful deletions); a directory removal that raises is swallowed without any
  log line and not counted (\<open>deleted_dirs\<close> counts the successful removals); and the run
  goes on: it lists, tests and tries to delete exactly what it would on the same tree
  with nothing locked.
\<close>

theorem item_failures_are_not_fatal:
  "log_lines (snd (local_cleanup_folder os folder exf exd False (Some (Dir r l cs)))) =
     concat (map (local_logged os)
       (trace (snd (local_cleanup_folder os folder exf exd False (Some (Dir r l cs)))))) \<and>
   deleted_files (snd (local_cleanup_folder os folder exf exd False (Some (Dir r l cs)))) =
     length (filter unlink_done
       (trace (snd (local_cleanup_folder os folder exf exd False (Some (Dir r l cs)))))) \<and>
   deleted_dirs (snd (local_cleanup_folder os folder exf exd False (Some (Dir r l cs)))) =
     length (filter rmdir_done
       (trace (snd (local_cleanup_folder os folder exf exd False (Some (Dir r l cs)))))) \<and>
   attempts (snd (local_cleanup_folder os folder exf exd False (Some (unlock (Dir r l cs))))) =
     attempts (snd (local_cleanup_folder os folder exf exd False (Some (Dir r l cs)))) \<and>
   log_lines (snd (ftp_cleanup_folder os cli remote_folder exf exd False (Some t))) =
     concat (map ftp_logged
       (trace (snd (ftp_cleanup_folder os cli remote_folder exf exd False (Some t))))) \<and>
   deleted_files (snd (ftp_cleanup_folder os cli remote_folder exf exd False (Some t))) =
     length (filter unlink_done
       (trace (snd (ftp_cleanup_folder os cli remote_folder exf exd False (Some t))))) \<and>
   deleted_dirs (snd (ftp_cleanup_folder os cli remote_folder exf exd False (Some t))) =
     length (filter rmdir_done
       (trace (snd (ftp_cleanup_folder os cli remote_folder exf exd False (Some t))))) \<and>
   attempts (snd (ftp_cleanup_folder os cli remote_folder exf exd False (Some (unlock t)))) =
     attempts (snd (ftp_cleanup_folder os cli remote_folder exf exd False (Some t)))"
proof -
  have loc: "accounted (local_logged os)
               (snd (local_cleanup_folder os folder exf exd False (Some (Dir r l cs))))"
    unfolding local_out_Dir by (rule accounted_os_walk)
  have loc_at: "attempts (snd (local_cleanup_folder os folder exf exd False (Some (unlock (Dir r l cs))))) =
                attempts (snd (local_cleanup_folder os folder exf exd False (Some (Dir r l cs))))"
    using attempts_os_walk [of os exf exd folder "Dir r l cs"]
    by (simp add: local_out_Dir del: os_walk.simps)
  have ftp: "accounted ftp_logged (snd (ftp_cleanup_folder os cli remote_folder exf exd False (Some t)))"
    unfolding ftp_out_Some by (rule accounted_walk_dir)
  have ftp_at: "attempts (snd (ftp_cleanup_folder os cli remote_folder exf exd False (Some (unlock t)))) =
                attempts (snd (ftp_cleanup_folder os cli remote_folder exf exd False (Some t)))"
    unfolding ftp_out_Some by (rule attempts_walk_dir)
  show ?thesis
    using loc loc_at ftp ftp_at unfolding accounted_def by blast
qed

text \<open>
  C8 (amended): for every job and initial tree, in both backends: \<open>deleted_files\<close> of a
  dry run equals \<open>deleted_files\<close> of the real run plus the number of file deletions that
  raise in the real run; \<open>deleted_dirs\<close> of a dry run is the number of emptiness tests
  that find no children during the dry run; in the real run the number of emptiness
  tests that find no children is \<open>deleted_dirs\<close> plus the number of removals that raise;
  and \<open>deleted_dirs\<close> of the dry run is at most that number (local backend: for names
  distinct within each directory).
\<close>

theorem dry_run_counters:
  "deleted_files (snd (local_cleanup_folder os folder exf exd True fs)) =
     deleted_files (snd (local_cleanup_folder os folder exf exd False fs)) +
     length (filter unlink_failed (trace (snd (local_cleanup_folder os folder exf exd False fs)))) \<and>
   deleted_files (snd (ftp_cleanup_folder os cli remote_folder exf exd True srv)) =
     deleted_files (snd (ftp_cleanup_folder os cli remote_folder exf exd False srv)) +
     length (filter unlink_failed (trace (snd (ftp_cleanup_folder os cli remote_folder exf exd False srv)))) \<and>
   deleted_dirs (snd (local_cleanup_folder os folder exf exd True fs)) =
     length (filter test_passed (trace (snd (local_cleanup_folder os folder exf exd True fs)))) \<and>
   deleted_dirs (snd (ftp_cleanup_folder os cli remote_folder exf exd True srv)) =
     length (filter test_passed (trace (snd (ftp_cleanup_folder os cli remote_folder exf exd True srv)))) \<and>
   deleted_dirs (snd (local_cleanup_folder os folder exf exd False fs)) +
     length (filter rmdir_failed (trace (snd (local_cleanup_folder os folder exf exd False fs)))) =
     length (filter test_passed (trace (snd (local_cleanup_folder os folder exf exd False fs)))) \<and>
   deleted_dirs (snd (ftp_cleanup_folder os cli remote_folder exf exd False srv)) +
     length (filter rmdir_failed (trace (snd (ftp_cleanup_folder os cli remote_folder exf exd False srv)))) =
     length (filter test_passed (trace (snd (ftp_cleanup_folder os cli remote_folder exf exd False srv)))) \<and>
   ((\<forall>t. fs = Some t \<longrightarrow> distinct_names t) \<longrightarrow>
      deleted_dirs (snd (local_cleanup_folder os folder exf exd True fs)) \<le>
        deleted_dirs (snd (local_cleanup_folder os folder exf exd False fs)) +
        length (filter rmdir_failed (trace (snd (local_cleanup_folder os folder exf exd False fs))))) \<and>
   deleted_dirs (snd (ftp_cleanup_folder os cli remote_folder exf exd True srv)) \<le>
     deleted_dirs (snd (ftp_cleanup_folder os cli remote_folder exf exd False srv)) +
     length (filter rmdir_failed (trace (snd (ftp_cleanup_folder os cli remote_folder exf exd False srv))))"
proof -
  let ?rf = "remote_root remote_folder"
  have lt: "tally dry (snd (local_cleanup_folder os folder exf exd dry fs))" for dry
  proof (cases "fs = None \<or> (\<exists>l. fs = Some (File l))")
    case True
    then show ?thesis
      using local_out_other [of fs os folder exf exd dry]
      by (cases dry) (simp_all add: tally_def rmdir_attempts_def)
  next
    case False
    then obtain r l cs where dir: "fs = Some (Dir r l cs)" using fs_cases [of fs] by blast
    show ?thesis unfolding dir local_out_Dir by (rule tally_os_walk)
  qed
  have ft: "tally dry (snd (ftp_cleanup_folder os cli remote_folder exf exd dry srv))" for dry
  proof (cases srv)
    case None
    then show ?thesis by (simp add: ftp_out_None list_failed_def tally_def rmdir_attempts_def)
  next
    case (Some t)
    show ?thesis unfolding Some ftp_out_Some by (rule tally_walk_dir)
  qed
  have lr: "deleted_dirs (snd (local_cleanup_folder os folder exf exd False fs)) =
            length (filter rmdir_done (trace (snd (local_cleanup_folder os folder exf exd False fs))))"
  proof (cases "fs = None \<or> (\<exists>l. fs = Some (File l))")
    case True
    then show ?thesis using local_out_other [of fs os folder exf exd False] by simp
  next
    case False
    then obtain r l cs where dir: "fs = Some (Dir r l cs)" using fs_cases [of fs] by blast
    show ?thesis
      unfolding dir local_out_Dir
      using accounted_os_walk [of os exf exd folder "Dir r l cs"] by (simp add: accounted_def)
  qed
  have fr: "deleted_dirs (snd (ftp_cleanup_folder os cli remote_folder exf exd False srv)) =
            length (filter rmdir_done (trace (snd (ftp_cleanup_folder os cli remote_folder exf exd False srv))))"
  proof (cases srv)
    case None
    then show ?thesis by (simp add: ftp_out_None list_failed_def)
  next
    case (Some t)
    show ?thesis
      unfolding Some ftp_out_Some
      using accounted_walk_dir [of os cli exf exd ?rf ?rf t] by (simp add: accounted_def)
  qed
  have l_files: "deleted_files (snd (local_cleanup_folder os folder exf exd True fs)) =
     deleted_files (snd (local_cleanup_folder os folder exf exd False fs)) +
     length (filter unlink_failed (trace (snd (local_cleanup_folder os folder exf exd False fs))))"
  proof (cases "fs = None \<or> (\<exists>l. fs = Some (File l))")
    case True
    then show ?thesis
      using local_out_other [of fs os folder exf exd True] local_out_other [of fs os folder exf exd False]
      by simp
  next
    case False
    then obtain r l cs where dir: "fs = Some (Dir r l cs)" using fs_cases [of fs] by blast
    have "deleted_files (snd (os_walk os exf exd True folder (Dir r l cs))) =
          length (unlink_paths (snd (os_walk os exf exd False folder (Dir r l cs))))"
      by (simp only: dry_count_os_walk unlink_paths_os_walk)
    moreover have "deleted_files (snd (os_walk os exf exd False folder (Dir r l cs))) =
          length (filter unlink_done (trace (snd (os_walk os exf exd False folder (Dir r l cs)))))"
      using accounted_os_walk [of os exf exd folder "Dir r l cs"] by (simp add: accounted_def)
    ultimately show ?thesis
      unfolding dir local_out_Dir unlink_paths_def by (simp only: unlink_count)
  qed
  have f_files: "deleted_files (snd (ftp_cleanup_folder os cli remote_folder exf exd True srv)) =
     deleted_files (snd (ftp_cleanup_folder os cli remote_folder exf exd False srv)) +
     length (filter unlink_failed (trace (snd (ftp_cleanup_folder os cli remote_folder exf exd False srv))))"
  proof (cases srv)
    case None
    then show ?thesis by (simp add: ftp_out_None list_failed_def)
  next
    case (Some t)
    have "deleted_files (snd (walk_dir os cli exf exd True ?rf ?rf t)) =
          length (unlink_paths (snd (walk_dir os cli exf exd False ?rf ?rf t)))"
      by (rule ftp_dry_files)
    moreover have "deleted_files (snd (walk_dir os cli exf exd False ?rf ?rf t)) =
          length (filter unlink_done (trace (snd (walk_dir os cli exf exd False ?rf ?rf t))))"
      using accounted_walk_dir [of os cli exf exd ?rf ?rf t] by (simp add: accounted_def)
    ultimately show ?thesis
      unfolding Some ftp_out_Some unlink_paths_def by (simp only: unlink_count)
  qed
  have l_dry: "deleted_dirs (snd (local_cleanup_folder os folder exf exd True fs)) =
     length (filter test_passed (trace (snd (local_cleanup_folder os folder exf exd True fs))))"
    using lt [of True] by (simp add: tally_def)
  have f_dry: "deleted_dirs (snd (ftp_cleanup_folder os cli remote_folder exf exd True srv)) =
     length (filter test_passed (trace (snd (ftp_cleanup_folder os cli remote_folder exf exd True srv))))"
    using ft [of True] by (simp add: tally_def)
  have l_real: "deleted_dirs (snd (local_cleanup_folder os folder exf exd False fs)) +
     length (filter rmdir_failed (trace (snd (local_cleanup_folder os folder exf exd False fs)))) =
     length (filter test_passed (trace (snd (local_cleanup_folder os folder exf exd False fs))))"
    using lt [of False] lr by (simp add: tally_def rmdir_attempts_def rmdir_count)
  have f_real: "deleted_dirs (snd (ftp_cleanup_folder os cli remote_folder exf exd False srv)) +
     length (filter rmdir_failed (trace (snd (ftp_cleanup_folder os cli remote_folder exf exd False srv)))) =
     length (filter test_passed (trace (snd (ftp_cleanup_folder os cli remote_folder exf exd False srv))))"
    using ft [of False] fr by (simp add: tally_def rmdir_attempts_def rmdir_count)
  have f_le: "deleted_dirs (snd (ftp_cleanup_folder os cli remote_folder exf exd True srv)) \<le>
     deleted_dirs (snd (ftp_cleanup_folder os cli remote_folder exf exd False srv)) +
     length (filter rmdir_failed (trace (snd (ftp_cleanup_folder os cli remote_folder exf exd False srv))))"
  proof (cases srv)
    case None
    then show ?thesis by (simp add: ftp_out_None list_failed_def)
  next
    case (Some t)
    have "deleted_dirs (snd (walk_dir os cli exf exd True ?rf ?rf t)) \<le>
          rmdir_attempts (snd (walk_dir os cli exf exd False ?rf ?rf t))"
      by (rule ftp_dry_dirs)
    moreover have "deleted_dirs (snd (walk_dir os cli exf exd False ?rf ?rf t)) =
          length (filter rmdir_done (trace (snd (walk_dir os cli exf exd False ?rf ?rf t))))"
      using accounted_walk_dir [of os cli exf exd ?rf ?rf t] by (simp add: accounted_def)
    ultimately show ?thesis
      unfolding Some ftp_out_Some rmdir_attempts_def by (simp only: rmdir_count)
  qed
  have l_le: "deleted_dirs (snd (local_cleanup_folder os folder exf exd True fs)) \<le>
        deleted_dirs (snd (local_cleanup_folder os folder exf exd False fs)) +
        length (filter rmdir_failed (trace (snd (local_cleanup_folder os folder exf exd False fs))))"
    if wf: "\<forall>t. fs = Some t \<longrightarrow> distinct_names t"
  proof (cases "fs = None \<or> (\<exists>l. fs = Some (File l))")
    case True
    then show ?thesis using local_out_other [of fs os folder exf exd True] by simp
  next
    case False
    then obtain r l cs where dir: "fs = Some (Dir r l cs)" using fs_cases [of fs] by blast
    have d: "distinct_names (Dir r l cs)" using wf dir by simp
    have "deleted_dirs (snd (os_walk os exf exd True folder (Dir r l cs))) \<le>
          rmdir_attempts (snd (os_walk os exf exd False folder (Dir r l cs)))"
      using d by (rule local_dry_dirs)
    moreover have "deleted_dirs (snd (os_walk os exf exd False folder (Dir r l cs))) =
          length (filter rmdir_done (trace (snd (os_walk os exf exd False folder (Dir r l cs)))))"
      using accounted_os_walk [of os exf exd folder "Dir r l cs"] by (simp add: accounted_def)
    ultimately show ?thesis
      unfolding dir local_out_Dir rmdir_attempts_def by (simp only: rmdir_count)
  qed
  show ?thesis
    using l_files f_files l_dry f_dry l_real f_real l_le f_le by blast
qed

definition stuck_tree :: node where
  "stuck_tree = Dir True False [(''busy.log'', File True), (''stuck'', Dir True True [])]"

definition nested_tree :: node where
  "nested_tree = Dir True False [(''old'', Dir True False [(''d.log'', File False)])]"

text \<open>
  A server that answers neither MLSD nor NLST in \<open>/logs/secret\<close>, and a tree whose
  directory \<open>secret\<close> holds a file: \<open>list_dir\<close> reports \<open>/logs/secret\<close> as empty.
\<close>

definition blind_server :: ftp_client where
  "blind_server = (\<lambda>rdir. if rdir = ''/logs/secret'' then Neither else Mlsd)"

definition secret_tree :: node where
  "secret_tree = Dir True False
     [(''a.log'', File False), (''secret'', Dir True False [(''s.log'', File False)])]"

theorem local_walk_ignores_excluded_folders_witness:
  "unlink_paths (snd (local_cleanup_folder Posix [''srv'', ''logs''] [''*.json''] [''config'']
          False (Some demo_tree))) =
     [[''srv'', ''logs'', ''config'', ''c.log''], [''srv'', ''logs'', ''old'', ''d.log''],
      [''srv'', ''logs'', ''b.log'']] \<and>
   Rmdir [''srv'', ''logs'', ''old''] None
     \<in> set (trace (snd (local_cleanup_folder Posix [''srv'', ''logs''] [''*.json''] [''config'']
          False (Some demo_tree)))) \<and>
   \<not> matches_any Posix (last [''srv'', ''logs'', ''old'']) [''config''] \<and>
   distinct_names demo_tree \<and>
   (\<exists>t. fst (local_cleanup_folder Posix [''srv'', ''logs''] [''*.json''] [''config''] False
           (Some demo_tree)) = Some t \<and> cleaned Posix [''*.json''] t)"
proof -
  have t: "demo_tree = Dir True False
     [(''a.json'', File False), (''b.log'', File False),
      (''config'', Dir True False [(''c.log'', File False)]),
      (''old'', Dir True False [(''d.log'', File False)]),
      (''empty'', Dir True False [])]"
    by (simp add: demo_tree_def)
  note th = local_walk_ignores_excluded_folders [of Posix "[''srv'', ''logs'']" "[''*.json'']"
      "[''config'']" True False "[(''a.json'', File False), (''b.log'', File False),
      (''config'', Dir True False [(''c.log'', File False)]),
      (''old'', Dir True False [(''d.log'', File False)]),
      (''empty'', Dir True False [])]" False, folded t]
  have a: "filter (\<lambda>p. \<not> matches_any Posix (last p) [''*.json'']) (all_files [''srv'', ''logs''] demo_tree)
     = [[''srv'', ''logs'', ''config'', ''c.log''], [''srv'', ''logs'', ''old'', ''d.log''],
        [''srv'', ''logs'', ''b.log'']]"
    by code_simp
  have b: "Rmdir [''srv'', ''logs'', ''old''] None
     \<in> set (trace (snd (local_cleanup_folder Posix [''srv'', ''logs''] [''*.json''] [''config'']
          False (Some demo_tree))))"
    by code_simp
  have c: "distinct_names demo_tree" by code_simp
  have u: "unlink_paths (snd (local_cleanup_folder Posix [''srv'', ''logs''] [''*.json''] [''config'']
          False (Some demo_tree))) =
     [[''srv'', ''logs'', ''config'', ''c.log''], [''srv'', ''logs'', ''old'', ''d.log''],
      [''srv'', ''logs'', ''b.log'']]"
    using th a by (blast intro: trans)
  show ?thesis using th u b c by blast
qed

text \<open>
  C7 as stated fails where it says that a warning is logged when the removal of an
  empty directory raises: both backends catch the exception with \<open>except Exception:
  pass\<close>. Here the removal of \<open>stuck\<close> raises and the only line logged is the warning
  for the locked file.
\<close>

theorem rmdir_failure_is_silent_counterexample:
  "Rmdir [''srv'', ''logs'', ''stuck''] (Some ''[Errno 13] Permission denied'')
     \<in> set (trace (snd (local_cleanup_folder Posix [''srv'', ''logs''] [] [] False (Some stuck_tree)))) \<and>
   log_lines (snd (local_cleanup_folder Posix [''srv'', ''logs''] [] [] False (Some stuck_tree))) =
     [(WARN, ''Failed delete file: srv/logs/busy.log :: [Errno 13] Permission denied'')] \<and>
   Rmdir ''/logs/stuck'' (Some ''550 Permission denied'')
     \<in> set (trace (snd (ftp_cleanup_folder Posix mlsd_server ''/logs'' [] [] False (Some stuck_tree)))) \<and>
   log_lines (snd (ftp_cleanup_folder Posix mlsd_server ''/logs'' [] [] False (Some stuck_tree))) =
     [(WARN, ''Failed delete remote file: /logs/busy.log :: 550 Permission denied'')]"
  by code_simp

theorem item_failures_are_not_fatal_witness:
  "log_lines (snd (local_cleanup_folder Posix [''srv'', ''logs''] [] [] False (Some stuck_tree))) =
     [(WARN, ''Failed delete file: srv/logs/busy.log :: [Errno 13] Permission denied'')] \<and>
   deleted_files (snd (local_cleanup_folder Posix [''srv'', ''logs''] [] [] False (Some stuck_tree))) = 0 \<and>
   attempts (snd (local_cleanup_folder Posix [''srv'', ''logs''] [] [] False (Some stuck_tree))) =
     [Lists [''srv'', ''logs''], Lists [''srv'', ''logs'', ''stuck''],
      Deletes [''srv'', ''logs'', ''busy.log''], Probes [''srv'', ''logs'', ''stuck'']] \<and>
   log_lines (snd (ftp_cleanup_folder Posix mlsd_server ''/logs'' [] [] False (Some stuck_tree))) =
     [(WARN, ''Failed delete remote file: /logs/busy.log :: 550 Permission denied'')] \<and>
   deleted_dirs (snd (ftp_cleanup_folder Posix mlsd_server ''/logs'' [] [] False (Some stuck_tree))) = 0 \<and>
   attempts (snd (ftp_cleanup_folder Posix mlsd_server ''/logs'' [] [] False (Some stuck_tree))) =
     [Lists ''/logs'', Lists ''/logs/stuck'', Probes ''/logs/stuck'', Deletes ''/logs/busy.log'']"
proof -
  have t: "stuck_tree = Dir True False [(''busy.log'', File True), (''stuck'', Dir True True [])]"
    by (simp add: stuck_tree_def)
  have a: "concat (map (local_logged Posix)
       (trace (snd (local_cleanup_folder Posix [''srv'', ''logs''] [] [] False (Some stuck_tree))))) =
     [(WARN, ''Failed delete file: srv/logs/busy.log :: [Errno 13] Permission denied'')]"
    by code_simp
  have b: "length (filter unlink_done
       (trace (snd (local_cleanup_folder Posix [''srv'', ''logs''] [] [] False (Some stuck_tree))))) = 0"
    by code_simp
  have c: "attempts (snd (local_cleanup_folder Posix [''srv'', ''logs''] [] [] False
              (Some (unlock stuck_tree)))) =
     [Lists [''srv'', ''logs''], Lists [''srv'', ''logs'', ''stuck''],
      Deletes [''srv'', ''logs'', ''busy.log''], Probes [''srv'', ''logs'', ''stuck'']]"
    by code_simp
  have d: "concat (map ftp_logged
       (trace (snd (ftp_cleanup_folder Posix mlsd_server ''/logs'' [] [] False (Some stuck_tree))))) =
     [(WARN, ''Failed delete remote file: /logs/busy.log :: 550 Permission denied'')]"
    by code_simp
  have e: "length (filter rmdir_done
       (trace (snd (ftp_cleanup_folder Posix mlsd_server ''/logs'' [] [] False (Some stuck_tree))))) = 0"
    by code_simp
  have f: "attempts (snd (ftp_cleanup_folder Posix mlsd_server ''/logs'' [] [] False
              (Some (unlock stuck_tree)))) =
     [Lists ''/logs'', Lists ''/logs/stuck'', Probes ''/logs/stuck'', Deletes ''/logs/busy.log'']"
    by code_simp
  show ?thesis
    using a b c d e f
      item_failures_are_not_fatal [of Posix "[''srv'', ''logs'']" "[]" "[]" True False
        "[(''busy.log'', File True), (''stuck'', Dir True True [])]" mlsd_server "''/logs''" stuck_tree]
    unfolding t [symmetric]
    by simp
qed

text \<open>
  C8 as stated fails: a directory that holds one deletable file is removed by the real
  run and not counted by the dry run (which finds it non-empty), in both backends; a
  file that cannot be deleted is counted by the dry run and not by the real run; and a
  directory whose listing comes back empty because the server answers neither MLSD nor
  NLST there is counted by the dry run, while the real run fails to remove it.
\<close>

theorem dry_run_counters_counterexample:
  "deleted_dirs (snd (local_cleanup_folder Posix [''srv'', ''logs''] [] [] True (Some nested_tree))) = 0 \<and>
   deleted_dirs (snd (local_cleanup_folder Posix [''srv'', ''logs''] [] [] False (Some nested_tree))) = 1 \<and>
   deleted_dirs (snd (ftp_cleanup_folder Posix mlsd_server ''/logs'' [] [] True (Some nested_tree))) = 0 \<and>
   deleted_dirs (snd (ftp_cleanup_folder Posix mlsd_server ''/logs'' [] [] False (Some nested_tree))) = 1 \<and>
   deleted_files (snd (local_cleanup_folder Posix [''srv'', ''logs''] [] [] True (Some stuck_tree))) = 1 \<and>
   deleted_files (snd (local_cleanup_folder Posix [''srv'', ''logs''] [] [] False (Some stuck_tree))) = 0 \<and>
   deleted_dirs (snd (ftp_cleanup_folder Posix blind_server ''/logs'' [] [] True (Some secret_tree))) = 1 \<and>
   deleted_dirs (snd (ftp_cleanup_folder Posix blind_server ''/logs'' [] [] False (Some secret_tree))) = 0"
  by code_simp

theorem dry_run_counters_witness:
  "distinct_names demo_tree \<and>
   deleted_files (snd (local_cleanup_folder Posix [''srv'', ''logs''] [''*.json''] [''config''] True
     (Some demo_tree))) = 3 \<and>
   deleted_dirs (snd (local_cleanup_folder Posix [''srv'', ''logs''] [''*.json''] [''config''] True
     (Some demo_tree))) = 1 \<and>
   deleted_dirs (snd (local_cleanup_folder Posix [''srv'', ''logs''] [''*.json''] [''config''] False
     (Some demo_tree))) +
     length (filter rmdir_failed (trace (snd (local_cleanup_folder Posix [''srv'', ''logs'']
       [''*.json''] [''config''] False (Some demo_tree))))) = 2 \<and>
   deleted_dirs (snd (local_cleanup_folder Posix [''srv'', ''logs''] [''*.json''] [''config''] True
     (Some demo_tree))) \<le>
     deleted_dirs (snd (local_cleanup_folder Posix [''srv'', ''logs''] [''*.json''] [''config''] False
       (Some demo_tree))) +
     length (filter rmdir_failed (trace (snd (local_cleanup_folder Posix [''srv'', ''logs'']
       [''*.json''] [''config''] False (Some demo_tree))))) \<and>
   deleted_files (snd (ftp_cleanup_folder Posix blind_server ''/logs'' [''*.json''] [''config''] True
     (Some secret_tree))) = 1 \<and>
   deleted_dirs (snd (ftp_cleanup_folder Posix blind_server ''/logs'' [''*.json''] [''config''] True
     (Some secret_tree))) = 1 \<and>
   deleted_dirs (snd (ftp_cleanup_folder Posix blind_server ''/logs'' [''*.json''] [''config''] False
     (Some secret_tree))) +
     length (filter rmdir_failed (trace (snd (ftp_cleanup_folder Posix blind_server ''/logs''
       [''*.json''] [''config''] False (Some secret_tree))))) = 1"
proof -
  have w: "distinct_names demo_tree" by code_simp
  have a: "deleted_files (snd (local_cleanup_folder Posix [''srv'', ''logs''] [''*.json''] [''config'']
       False (Some demo_tree))) +
     length (filter unlink_failed (trace (snd (local_cleanup_folder Posix [''srv'', ''logs'']
       [''*.json''] [''config''] False (Some demo_tree))))) = 3"
    by code_simp
  have b: "length (filter test_passed (trace (snd (local_cleanup_folder Posix [''srv'', ''logs'']
       [''*.json''] [''config''] True (Some demo_tree))))) = 1"
    by code_simp
  have c: "length (filter test_passed (trace (snd (local_cleanup_folder Posix [''srv'', ''logs'']
       [''*.json''] [''config''] False (Some demo_tree))))) = 2"
    by code_simp
  have d: "deleted_files (snd (ftp_cleanup_folder Posix blind_server ''/logs'' [''*.json''] [''config'']
       False (Some secret_tree))) +
     length (filter unlink_failed (trace (snd (ftp_cleanup_folder Posix blind_server ''/logs''
       [''*.json''] [''config''] False (Some secret_tree))))) = 1"
    by code_simp
  have e: "length (filter test_passed (trace (snd (ftp_cleanup_folder Posix blind_server ''/logs''
       [''*.json''] [''config''] True (Some secret_tree))))) = 1"
    by code_simp
  have f: "length (filter test_passed (trace (snd (ftp_cleanup_folder Posix blind_server ''/logs''
       [''*.json''] [''config''] False (Some secret_tree))))) = 1"
    by code_simp
  show ?thesis
    using w a b c d e f
      dry_run_counters [of Posix "[''srv'', ''logs'']" "[''*.json'']" "[''config'']" "Some demo_tree"
        blind_server "''/logs''" "Some secret_tree"]
    by simp
qed

end
